theory Spec2Isabelle
  imports Complex_Main
begin

section \<open>Entity model\<close>

text \<open>
  The three dataclasses of \<^verbatim>\<open>classroom_allocation.py\<close>. Python's \<^verbatim>\<open>int\<close> is
  \<open>int\<close>; a \<^verbatim>\<open>float\<close> is idealised as a \<open>real\<close> (no rounding, no NaN, no
  infinity); the occupancy dictionary \<^verbatim>\<open>schedule\<close> is a partial map. The field
  \<^verbatim>\<open>id\<close> and the field \<^verbatim>\<open>size\<close> clash with constants of HOL and carry the
  name of their class as a prefix, as does \<^verbatim>\<open>coord\<close>, which two classes share.
\<close>

type_synonym coord = "real \<times> real"

record Room =
  room_id :: string
  capacity :: int
  room_coord :: coord
  schedule :: "int \<rightharpoonup> string"

record Person =
  person_id :: string
  person_coord :: coord

record Course =
  course_id :: string
  course_size :: int
  teacher :: Person
  students :: "Person list"
  timeslot :: int

definition is_available :: "Room \<Rightarrow> int \<Rightarrow> int \<Rightarrow> bool" where
  "is_available r ts sz \<longleftrightarrow> schedule r ts = None \<and> sz \<le> capacity r"

section \<open>Objects, random sources and exceptions\<close>

text \<open>
  Room objects and dictionaries are mutable and shared by reference, so they live in a
  store: \<open>room_heap\<close> maps the address of a Room object to its current value and
  \<open>dict_heap\<close> the address of an allocation dictionary to its contents;
  \<open>next_dict\<close> is the first address no dictionary has been created at. A list or a
  dictionary of rooms holds addresses. Every Room owns its schedule.

  The two random sources are streams of raw draws: \<open>glob\<close> is the module-level
  generator of \<^verbatim>\<open>random\<close>, \<open>rng\<close> the generator \<^verbatim>\<open>random.Random(42)\<close> that
  \<^verbatim>\<open>genetic_allocate\<close> creates. A stream is an arbitrary function of the draw's
  position: the library's generator and its algorithms are not modelled, only that each
  operation consumes draws and that a draw selects one of the admissible outcomes.
\<close>

record world =
  room_heap :: "nat \<Rightarrow> Room"
  dict_heap :: "nat \<Rightarrow> (string \<rightharpoonup> string)"
  next_dict :: nat
  rng :: "nat \<Rightarrow> nat"
  glob :: "nat \<Rightarrow> nat"

text \<open>
  The exceptions the code can raise. \<open>RuntimeError cid ts\<close> is the error of
  \<^verbatim>\<open>greedy_allocate\<close>, whose message holds the course's id and time-slot.
\<close>

datatype error =
    RuntimeError string int
  | ZeroDivisionError
  | ValueError
  | IndexError string
  | KeyError string

text \<open>
  A computation takes the world and either raises or returns a value and the new world.
\<close>

type_synonym 'a M = "world \<Rightarrow> error + ('a \<times> world)"

definition ret :: "'a \<Rightarrow> 'a M" where
  "ret x = (\<lambda>w. Inr (x, w))"

definition raise :: "error \<Rightarrow> 'a M" where
  "raise e = (\<lambda>w. Inl e)"

definition bind :: "'a M \<Rightarrow> ('a \<Rightarrow> 'b M) \<Rightarrow> 'b M" where
  "bind m f = (\<lambda>w. case m w of Inl e \<Rightarrow> Inl e | Inr (x, w') \<Rightarrow> f x w')"

fun mapM :: "('a \<Rightarrow> 'b M) \<Rightarrow> 'a list \<Rightarrow> 'b list M" where
  "mapM f [] = ret []"
| "mapM f (x # xs) = bind (f x) (\<lambda>y. bind (mapM f xs) (\<lambda>ys. ret (y # ys)))"

definition draw_glob :: "nat M" where
  "draw_glob = (\<lambda>w. Inr (glob w 0, w\<lparr>glob := \<lambda>n. glob w (Suc n)\<rparr>))"

definition draw_rng :: "nat M" where
  "draw_rng = (\<lambda>w. Inr (rng w 0, w\<lparr>rng := \<lambda>n. rng w (Suc n)\<rparr>))"

text \<open>
  \<^verbatim>\<open>random.sample(population, k)\<close>: \<open>k\<close> elements at distinct positions, each
  chosen by one draw among the elements not chosen yet; \<^verbatim>\<open>ValueError\<close> when the
  population has fewer than \<open>k\<close> elements.
\<close>

fun random_sample :: "'a list \<Rightarrow> nat \<Rightarrow> 'a list M" where
  "random_sample xs 0 = ret []"
| "random_sample xs (Suc k) =
     (if xs = [] then raise ValueError
      else bind draw_glob (\<lambda>r.
        let i = r mod length xs in
        bind (random_sample (take i xs @ drop (Suc i) xs) k) (\<lambda>ys. ret (xs ! i # ys))))"

text \<open>Indexing a list: \<^verbatim>\<open>IndexError\<close> out of range (the indices here are never negative).\<close>

definition py_nth :: "'a list \<Rightarrow> nat \<Rightarrow> 'a M" where
  "py_nth xs i = (if i < length xs then ret (xs ! i) else raise (IndexError ''list index out of range''))"

text \<open>Looking a key up in a dictionary: \<^verbatim>\<open>KeyError\<close> when it is missing.\<close>

definition py_get :: "(string \<rightharpoonup> 'v) \<Rightarrow> string \<Rightarrow> 'v M" where
  "py_get d k = (case d k of None \<Rightarrow> raise (KeyError k) | Some v \<Rightarrow> ret v)"

text \<open>
  \<^verbatim>\<open>min(xs, key=f)\<close>: the key of every element is computed, in order, and the first
  element of least key is returned; \<^verbatim>\<open>ValueError\<close> on an empty list. Only the key can
  raise or draw, so the keys are computed first and the choice among them is pure.
\<close>

fun first_min :: "real \<times> 'a \<Rightarrow> (real \<times> 'a) list \<Rightarrow> 'a" where
  "first_min (k, x) [] = x"
| "first_min (k, x) ((k', x') # ps) =
     (if k' < k then first_min (k', x') ps else first_min (k, x) ps)"

definition min_by :: "('a \<Rightarrow> real M) \<Rightarrow> 'a list \<Rightarrow> 'a M" where
  "min_by f xs =
     bind (mapM f xs) (\<lambda>ks.
       case zip ks xs of [] \<Rightarrow> raise ValueError | p # ps \<Rightarrow> ret (first_min p ps))"

section \<open>Cost model\<close>

text \<open>
  In this section and in the allocators that follow, a distance and a cost are real
  numbers and a sum is the exact sum. That serves for what is proved of them: which room a
  course gets, what is written and what is raised do not turn on the last bit of a cost,
  and a cost in exact mode is the same number at every evaluation. The doubles of the
  interpreter, and the cost model and local search over them, are the subject of the
  sections on floating-point arithmetic below; the acceptance test of local search is
  settled there.
\<close>

definition euclidean :: "coord \<Rightarrow> coord \<Rightarrow> real" where
  "euclidean a b = sqrt ((fst a - fst b)\<^sup>2 + (snd a - snd b)\<^sup>2)"

text \<open>
  \<^verbatim>\<open>travel_cost\<close>: the teacher's distance, then the sample (drawn only when the roster
  has more than 30 students), then the scaled sum, whose division raises when \<open>k = 0\<close>.
\<close>

definition travel_cost :: "Course \<Rightarrow> Room \<Rightarrow> real M" where
  "travel_cost course room =
     (let teacher_cost = euclidean (person_coord (teacher course)) (room_coord room);
          k = min 30 (length (students course))
      in bind (if k < length (students course) then random_sample (students course) k
               else ret (students course)) (\<lambda>sample.
         if k = 0 then raise ZeroDivisionError
         else ret (teacher_cost
                   + sum_list (map (\<lambda>s. euclidean (person_coord s) (room_coord room)) sample)
                     * (real (length (students course)) / real k))))"

text \<open>The cost the docstring describes: the teacher's distance plus every student's.\<close>

definition exact_cost :: "Course \<Rightarrow> Room \<Rightarrow> real" where
  "exact_cost course room =
     euclidean (person_coord (teacher course)) (room_coord room)
     + (\<Sum>s\<leftarrow>students course. euclidean (person_coord s) (room_coord room))"

text \<open>\<^verbatim>\<open>travel_cost(course, r)\<close> for the Room object at address \<open>r\<close>.\<close>

definition room_travel_cost :: "Course \<Rightarrow> nat \<Rightarrow> real M" where
  "room_travel_cost course r = (\<lambda>w. travel_cost course (room_heap w r) w)"

section \<open>Greedy allocator\<close>

text \<open>
  One turn of the loop of \<^verbatim>\<open>greedy_allocate\<close>. \<open>rooms\<close> is the list of the
  addresses of the Room objects; the chosen room's schedule is written in place.
\<close>

definition greedy_step :: "nat list \<Rightarrow> Course \<Rightarrow> (string \<rightharpoonup> string) \<Rightarrow> (string \<rightharpoonup> string) M" where
  "greedy_step rooms course allocation = (\<lambda>w.
     let feasible = filter (\<lambda>r. is_available (room_heap w r) (timeslot course) (course_size course)) rooms
     in if feasible = [] then Inl (RuntimeError (course_id course) (timeslot course))
        else bind (min_by (room_travel_cost course) feasible) (\<lambda>best_room w'.
               Inr (allocation(course_id course \<mapsto> room_id (room_heap w' best_room)),
                    w'\<lparr>room_heap := (room_heap w')(best_room := (room_heap w' best_room)
                         \<lparr>schedule := (schedule (room_heap w' best_room))(timeslot course \<mapsto> course_id course)\<rparr>)\<rparr>)) w)"

fun greedy_loop :: "nat list \<Rightarrow> Course list \<Rightarrow> (string \<rightharpoonup> string) \<Rightarrow> (string \<rightharpoonup> string) M" where
  "greedy_loop rooms [] allocation = ret allocation"
| "greedy_loop rooms (course # cs) allocation =
     bind (greedy_step rooms course allocation) (greedy_loop rooms cs)"

text \<open>
  \<^verbatim>\<open>sorted(courses, key=lambda c: c.size, reverse=True)\<close> is stable: courses of equal
  size keep their order, as the stable ascending sort on the negated size does.
\<close>

definition sorted_courses :: "Course list \<Rightarrow> Course list" where
  "sorted_courses courses = sort_key (\<lambda>c. - course_size c) courses"

definition greedy_allocate :: "Course list \<Rightarrow> nat list \<Rightarrow> (string \<rightharpoonup> string) M" where
  "greedy_allocate courses rooms = greedy_loop rooms (sorted_courses courses) Map.empty"

section \<open>Local search\<close>

text \<open>
  \<open>rooms\<close> is the dictionary from room id to the address of the Room object;
  \<open>alloc\<close> and \<open>current\<close> are addresses of allocation dictionaries.
\<close>

definition dict_get :: "nat \<Rightarrow> string \<Rightarrow> string M" where
  "dict_get d k = (\<lambda>w. py_get (dict_heap w d) k w)"

definition dict_copy :: "nat \<Rightarrow> nat M" where
  "dict_copy d = (\<lambda>w. Inr (next_dict w,
     w\<lparr>dict_heap := (dict_heap w)(next_dict w := dict_heap w d), next_dict := Suc (next_dict w)\<rparr>))"

definition dict_set :: "nat \<Rightarrow> string \<Rightarrow> string \<Rightarrow> unit M" where
  "dict_set d k v = (\<lambda>w. Inr ((), w\<lparr>dict_heap := (dict_heap w)(d := (dict_heap w d)(k \<mapsto> v))\<rparr>))"

definition get_capacity :: "nat \<Rightarrow> int M" where
  "get_capacity r = (\<lambda>w. Inr (capacity (room_heap w r), w))"

definition get_room_id :: "nat \<Rightarrow> string M" where
  "get_room_id r = (\<lambda>w. Inr (room_id (room_heap w r), w))"

definition cost_of_alloc :: "Course list \<Rightarrow> (string \<rightharpoonup> nat) \<Rightarrow> nat \<Rightarrow> real M" where
  "cost_of_alloc courses rooms alloc =
     bind (mapM (\<lambda>course.
             bind (dict_get alloc (course_id course)) (\<lambda>k.
             bind (py_get rooms k) (\<lambda>r. room_travel_cost course r))) courses)
       (\<lambda>costs. ret (sum_list costs))"

text \<open>
  One iteration of the loop; the value is the new \<^verbatim>\<open>current_cost\<close>. A
  \<^verbatim>\<open>continue\<close> returns the cost unchanged.
\<close>

definition ls_step :: "Course list \<Rightarrow> (string \<rightharpoonup> nat) \<Rightarrow> nat \<Rightarrow> real \<Rightarrow> real M" where
  "ls_step courses rooms current current_cost =
     bind (random_sample courses 2) (\<lambda>pair.
       case pair of
         [c1, c2] \<Rightarrow>
           if timeslot c1 \<noteq> timeslot c2 then ret current_cost
           else
             bind (dict_get current (course_id c1)) (\<lambda>k1. bind (py_get rooms k1) (\<lambda>r1.
             bind (dict_get current (course_id c2)) (\<lambda>k2. bind (py_get rooms k2) (\<lambda>r2.
             bind (get_capacity r1) (\<lambda>cap1. bind (get_capacity r2) (\<lambda>cap2.
             if cap1 < course_size c2 \<or> cap2 < course_size c1 then ret current_cost
             else
               bind (room_travel_cost c1 r2) (\<lambda>t12. bind (room_travel_cost c2 r1) (\<lambda>t21.
               bind (room_travel_cost c1 r1) (\<lambda>t11. bind (room_travel_cost c2 r2) (\<lambda>t22.
               let delta = t12 + t21 - t11 - t22 in
               if delta < 0 then
                 bind (get_room_id r2) (\<lambda>id2. bind (get_room_id r1) (\<lambda>id1.
                 bind (dict_set current (course_id c1) id2) (\<lambda>_.
                 bind (dict_set current (course_id c2) id1) (\<lambda>_.
                 ret (current_cost + delta)))))
               else ret current_cost))))))))))
       | _ \<Rightarrow> raise ValueError)"

fun ls_loop :: "Course list \<Rightarrow> (string \<rightharpoonup> nat) \<Rightarrow> nat \<Rightarrow> nat \<Rightarrow> real \<Rightarrow> real M" where
  "ls_loop courses rooms current 0 current_cost = ret current_cost"
| "ls_loop courses rooms current (Suc n) current_cost =
     bind (ls_step courses rooms current current_cost) (ls_loop courses rooms current n)"

text \<open>
  \<^verbatim>\<open>local_search\<close> returns the address of the dictionary \<^verbatim>\<open>current\<close>;
  \<open>ls_run\<close> also returns the final \<^verbatim>\<open>current_cost\<close>, a local variable of the
  source.
\<close>

definition ls_run :: "nat \<Rightarrow> Course list \<Rightarrow> (string \<rightharpoonup> nat) \<Rightarrow> int \<Rightarrow> (nat \<times> real \<times> real) M" where
  "ls_run allocation courses rooms max_iter =
     bind (dict_copy allocation) (\<lambda>current.
     bind (cost_of_alloc courses rooms current) (\<lambda>initial_cost.
     bind (ls_loop courses rooms current (nat max_iter) initial_cost) (\<lambda>current_cost.
     ret (current, initial_cost, current_cost))))"

definition local_search :: "nat \<Rightarrow> Course list \<Rightarrow> (string \<rightharpoonup> nat) \<Rightarrow> int \<Rightarrow> nat M" where
  "local_search allocation courses rooms max_iter =
     bind (ls_run allocation courses rooms max_iter) (\<lambda>(current, initial_cost, current_cost). ret current)"

section \<open>Genetic optimizer\<close>

text \<open>Operations of the generator \<^verbatim>\<open>rng\<close>.\<close>

definition choice :: "'a list \<Rightarrow> 'a M" where
  "choice xs =
     (if xs = [] then raise (IndexError ''Cannot choose from an empty sequence'')
      else bind draw_rng (\<lambda>r. ret (xs ! (r mod length xs))))"

definition rng_random :: "real M" where
  "rng_random = bind draw_rng (\<lambda>r. ret (real (r mod 2 ^ 53) / 2 ^ 53))"

definition randrange :: "nat \<Rightarrow> nat \<Rightarrow> nat M" where
  "randrange a b =
     (if b \<le> a then raise ValueError else bind draw_rng (\<lambda>r. ret (a + r mod (b - a))))"

text \<open>A slice \<^verbatim>\<open>xs[:k]\<close>; a negative \<open>k\<close> counts from the end.\<close>

definition py_take :: "'a list \<Rightarrow> int \<Rightarrow> 'a list" where
  "py_take xs k = (if 0 \<le> k then take (nat k) xs else take (nat (int (length xs) + k)) xs)"

text \<open>
  \<^verbatim>\<open>xs.sort(key=f)\<close>: the keys are computed once, in order, and the sort is stable.
\<close>

definition sort_by :: "('a \<Rightarrow> real M) \<Rightarrow> 'a list \<Rightarrow> 'a list M" where
  "sort_by f xs = bind (mapM f xs) (\<lambda>ks. ret (map snd (sort_key fst (zip ks xs))))"

text \<open>A chromosome holds, for each course, an index into the list \<open>rooms\<close>.\<close>

definition feasible_rooms :: "Course list \<Rightarrow> nat list \<Rightarrow> world \<Rightarrow> nat list list" where
  "feasible_rooms courses rooms w =
     map (\<lambda>course. filter (\<lambda>i. course_size course \<le> capacity (room_heap w (rooms ! i))
                               \<and> schedule (room_heap w (rooms ! i)) (timeslot course) = None)
                     [0..<length rooms]) courses"

definition random_chrom :: "nat list list \<Rightarrow> nat list M" where
  "random_chrom fr = mapM choice fr"

definition fitness :: "Course list \<Rightarrow> nat list \<Rightarrow> nat list \<Rightarrow> real M" where
  "fitness courses rooms chrom =
     bind (mapM (\<lambda>(i, idx).
             bind (py_nth courses i) (\<lambda>course.
             bind (py_nth rooms idx) (\<lambda>r. room_travel_cost course r))) (enumerate 0 chrom))
       (\<lambda>costs. ret (sum_list costs))"

definition init_population :: "nat list list \<Rightarrow> int \<Rightarrow> nat list list M" where
  "init_population fr pop_size = mapM (\<lambda>_. random_chrom fr) [0..<nat pop_size]"

text \<open>Binary tournament: \<^verbatim>\<open>min(random.sample(population, 2), key=fitness)\<close>.\<close>

definition tournament :: "Course list \<Rightarrow> nat list \<Rightarrow> nat list list \<Rightarrow> nat list M" where
  "tournament courses rooms population =
     bind (random_sample population 2) (min_by (fitness courses rooms))"

definition select_parents :: "Course list \<Rightarrow> nat list \<Rightarrow> int \<Rightarrow> nat list list \<Rightarrow> nat list list M" where
  "select_parents courses rooms pop_size population =
     mapM (\<lambda>_. tournament courses rooms population) [0..<nat pop_size]"

text \<open>
  The body of the reproduction loop at index \<open>i\<close>: the two children of
  \<^verbatim>\<open>parents[i]\<close> and \<^verbatim>\<open>parents[i + 1]\<close>. The children are new lists.
\<close>

definition crossover :: "nat \<Rightarrow> real \<Rightarrow> nat list list \<Rightarrow> nat \<Rightarrow> nat list list M" where
  "crossover n_courses crossover_rate parents i =
     bind (py_nth parents i) (\<lambda>p1. bind (py_nth parents (i + 1)) (\<lambda>p2.
     bind rng_random (\<lambda>u.
       if u < crossover_rate then
         bind (randrange 1 n_courses) (\<lambda>cut.
           ret [take cut p1 @ drop cut p2, take cut p2 @ drop cut p1])
       else ret [p1, p2])))"

text \<open>\<^verbatim>\<open>for i in range(0, pop_size, 2)\<close>, each turn extending \<^verbatim>\<open>offspring\<close>.\<close>

definition reproduce :: "nat \<Rightarrow> real \<Rightarrow> int \<Rightarrow> nat list list \<Rightarrow> nat list list M" where
  "reproduce n_courses crossover_rate pop_size parents =
     bind (mapM (crossover n_courses crossover_rate parents)
             (map (\<lambda>j. 2 * j) [0..<(nat pop_size + 1) div 2]))
       (\<lambda>children. ret (concat children))"

definition mutate :: "nat \<Rightarrow> real \<Rightarrow> nat list list \<Rightarrow> nat list \<Rightarrow> nat list M" where
  "mutate n_courses mutation_rate fr chrom =
     bind rng_random (\<lambda>u.
       if u < mutation_rate then
         bind (randrange 0 n_courses) (\<lambda>idx.
         bind (py_nth fr idx) (\<lambda>options.
         bind (choice options) (\<lambda>v.
           if idx < length chrom then ret (chrom[idx := v])
           else raise (IndexError ''list assignment index out of range''))))
       else ret chrom)"

definition generation ::
  "Course list \<Rightarrow> nat list \<Rightarrow> nat list list \<Rightarrow> int \<Rightarrow> real \<Rightarrow> real \<Rightarrow> nat list list \<Rightarrow> nat list list M" where
  "generation courses rooms fr pop_size crossover_rate mutation_rate population =
     bind (select_parents courses rooms pop_size population) (\<lambda>parents.
     bind (reproduce (length courses) crossover_rate pop_size parents) (\<lambda>offspring.
     bind (mapM (mutate (length courses) mutation_rate fr) offspring) (\<lambda>mutated.
     bind (sort_by (fitness courses rooms) (population @ mutated)) (\<lambda>merged.
     ret (py_take merged pop_size)))))"

fun evolve ::
  "Course list \<Rightarrow> nat list \<Rightarrow> nat list list \<Rightarrow> int \<Rightarrow> real \<Rightarrow> real \<Rightarrow> nat \<Rightarrow> nat list list \<Rightarrow> nat list list M" where
  "evolve courses rooms fr pop_size crossover_rate mutation_rate 0 population = ret population"
| "evolve courses rooms fr pop_size crossover_rate mutation_rate (Suc n) population =
     bind (generation courses rooms fr pop_size crossover_rate mutation_rate population)
       (evolve courses rooms fr pop_size crossover_rate mutation_rate n)"

text \<open>
  \<^verbatim>\<open>{course.id: rooms[idx].id for course, idx in zip(courses, best)}\<close>: a later
  entry of the same key replaces an earlier one.
\<close>

definition to_mapping :: "Course list \<Rightarrow> nat list \<Rightarrow> nat list \<Rightarrow> (string \<rightharpoonup> string) M" where
  "to_mapping courses rooms best =
     bind (mapM (\<lambda>(course, idx).
             bind (py_nth rooms idx) (\<lambda>r. bind (get_room_id r) (\<lambda>rid. ret (course_id course, rid))))
           (zip courses best))
       (\<lambda>items. ret (fold (\<lambda>(k, v) m. m(k \<mapsto> v)) items Map.empty))"

text \<open>
  The populations of a call: the initial one and the one after the last generation.
  \<open>seed42\<close> is the stream of draws of \<^verbatim>\<open>random.Random(42)\<close>.
\<close>

definition ga_run ::
  "Course list \<Rightarrow> nat list \<Rightarrow> int \<Rightarrow> int \<Rightarrow> real \<Rightarrow> real \<Rightarrow> (nat \<Rightarrow> nat) \<Rightarrow> (nat list list \<times> nat list list) M" where
  "ga_run courses rooms pop_size generations crossover_rate mutation_rate seed42 = (\<lambda>w0.
     let w = w0\<lparr>rng := seed42\<rparr>; fr = feasible_rooms courses rooms w
     in bind (init_population fr pop_size) (\<lambda>initial.
        bind (evolve courses rooms fr pop_size crossover_rate mutation_rate (nat generations) initial)
          (\<lambda>final. ret (initial, final))) w)"

definition genetic_allocate ::
  "Course list \<Rightarrow> nat list \<Rightarrow> int \<Rightarrow> int \<Rightarrow> real \<Rightarrow> real \<Rightarrow> (nat \<Rightarrow> nat) \<Rightarrow> (string \<rightharpoonup> string) M" where
  "genetic_allocate courses rooms pop_size generations crossover_rate mutation_rate seed42 =
     bind (ga_run courses rooms pop_size generations crossover_rate mutation_rate seed42)
       (\<lambda>(initial, final).
          bind (min_by (fitness courses rooms) final) (to_mapping courses rooms))"


section \<open>Example inputs\<close>

definition ex_near :: Person where
  "ex_near = \<lparr>person_id = ''s0'', person_coord = (0, 0)\<rparr>"

definition ex_far :: Person where
  "ex_far = \<lparr>person_id = ''s1'', person_coord = (1, 0)\<rparr>"

definition ex_room :: Room where
  "ex_room = \<lparr>room_id = ''R0'', capacity = 100, room_coord = (0, 0), schedule = Map.empty\<rparr>"

definition ex_world :: world where
  "ex_world = \<lparr>room_heap = (\<lambda>_. ex_room), dict_heap = (\<lambda>_. Map.empty), next_dict = 0,
                rng = (\<lambda>_. 0), glob = (\<lambda>_. 0)\<rparr>"

text \<open>A course of 31 students, one of them away from the others.\<close>

definition ex_big :: Course where
  "ex_big = \<lparr>course_id = ''C0'', course_size = 31, teacher = ex_near,
             students = replicate 30 ex_near @ [ex_far], timeslot = 0\<rparr>"

text \<open>A course of two students.\<close>

definition ex_small :: Course where
  "ex_small = \<lparr>course_id = ''C1'', course_size = 2, teacher = ex_far,
               students = [ex_far, ex_near], timeslot = 0\<rparr>"

section \<open>Auxiliary predicates\<close>

text \<open>
  \<open>same_heap w w'\<close>: the two worlds hold the same objects (they may differ in the random
  sources). A computation is \<open>heap_pure\<close> when it writes no object.
\<close>

definition same_heap :: "world \<Rightarrow> world \<Rightarrow> bool" where
  "same_heap w w' \<longleftrightarrow> room_heap w' = room_heap w \<and> dict_heap w' = dict_heap w \<and> next_dict w' = next_dict w"

definition heap_pure :: "'a M \<Rightarrow> bool" where
  "heap_pure m \<longleftrightarrow> (\<forall>w x w'. m w = Inr (x, w') \<longrightarrow> same_heap w w')"

definition placed :: "nat list \<Rightarrow> (string \<rightharpoonup> string) \<Rightarrow> world \<Rightarrow> Course \<Rightarrow> bool" where
  "placed rooms alloc w c \<longleftrightarrow>
     (\<exists>r\<in>set rooms. alloc (course_id c) = Some (room_id (room_heap w r))
        \<and> course_size c \<le> capacity (room_heap w r)
        \<and> schedule (room_heap w r) (timeslot c) = Some (course_id c))"

definition book :: "Course \<Rightarrow> Room \<Rightarrow> Room" where
  "book c r = r\<lparr>schedule := (schedule r)(timeslot c \<mapsto> course_id c)\<rparr>"

definition swap_entries :: "(string \<rightharpoonup> string) \<Rightarrow> Course \<Rightarrow> Course \<Rightarrow> string \<Rightarrow> string \<Rightarrow> (string \<rightharpoonup> string)" where
  "swap_entries d c1 c2 id1 id2 = d(course_id c1 \<mapsto> id2, course_id c2 \<mapsto> id1)"

definition rooms_by_id :: "(string \<rightharpoonup> nat) \<Rightarrow> world \<Rightarrow> bool" where
  "rooms_by_id rooms w \<longleftrightarrow> (\<forall>k r. rooms k = Some r \<longrightarrow> room_id (room_heap w r) = k)"

definition fits_dict :: "Course list \<Rightarrow> (string \<rightharpoonup> nat) \<Rightarrow> (string \<rightharpoonup> string) \<Rightarrow> world \<Rightarrow> bool" where
  "fits_dict courses rooms alloc w \<longleftrightarrow>
     (\<forall>c\<in>set courses.
        case alloc (course_id c) of None \<Rightarrow> False
        | Some k \<Rightarrow> (case rooms k of None \<Rightarrow> False
                     | Some r \<Rightarrow> course_size c \<le> capacity (room_heap w r)))"

definition no_clash :: "Course list \<Rightarrow> (string \<rightharpoonup> string) \<Rightarrow> bool" where
  "no_clash courses alloc \<longleftrightarrow>
     (\<forall>c1\<in>set courses. \<forall>c2\<in>set courses.
        course_id c1 \<noteq> course_id c2 \<and> timeslot c1 = timeslot c2 \<and> alloc (course_id c1) \<noteq> None
        \<longrightarrow> alloc (course_id c1) \<noteq> alloc (course_id c2))"

definition located :: "Course list \<Rightarrow> (string \<rightharpoonup> nat) \<Rightarrow> (string \<rightharpoonup> string) \<Rightarrow> bool" where
  "located courses rooms alloc \<longleftrightarrow>
     (\<forall>c\<in>set courses. \<exists>k r. alloc (course_id c) = Some k \<and> rooms k = Some r)"

definition course_cost :: "(string \<rightharpoonup> nat) \<Rightarrow> (string \<rightharpoonup> string) \<Rightarrow> world \<Rightarrow> Course \<Rightarrow> real" where
  "course_cost rooms alloc w c = exact_cost c (room_heap w (the (rooms (the (alloc (course_id c))))))"

definition forget_schedules :: "world \<Rightarrow> world" where
  "forget_schedules w = w\<lparr>room_heap := \<lambda>r. (room_heap w r)\<lparr>schedule := Map.empty\<rparr>\<rparr>"

definition schedule_blind :: "'a M \<Rightarrow> bool" where
  "schedule_blind m \<longleftrightarrow>
     (\<forall>w. m (forget_schedules w) = map_sum id (map_prod id forget_schedules) (m w))"

definition ex_r50 :: Room where
  "ex_r50 = \<lparr>room_id = ''R50'', capacity = 50, room_coord = (0, 0), schedule = Map.empty\<rparr>"

definition ex_r100 :: Room where
  "ex_r100 = \<lparr>room_id = ''R100'', capacity = 100, room_coord = (1, 0), schedule = Map.empty\<rparr>"

definition ex_a :: Course where
  "ex_a = \<lparr>course_id = ''A'', course_size = 40, teacher = ex_far, students = [ex_far], timeslot = 0\<rparr>"

definition ex_b :: Course where
  "ex_b = \<lparr>course_id = ''B'', course_size = 30, teacher = ex_near, students = [ex_near], timeslot = 0\<rparr>"

definition ex_rooms_by_id :: "string \<rightharpoonup> nat" where
  "ex_rooms_by_id = [''R50'' \<mapsto> 0, ''R100'' \<mapsto> 1]"

definition ex_campus :: world where
  "ex_campus = \<lparr>room_heap = (\<lambda>r. if r = 0 then ex_r50 else ex_r100),
                 dict_heap = (\<lambda>d. if d = 0 then [''A'' \<mapsto> ''R50'', ''B'' \<mapsto> ''R100''] else Map.empty),
                 next_dict = 1, rng = (\<lambda>_. 0), glob = (\<lambda>_. 0)\<rparr>"

definition ex_swapped :: world where
  "ex_swapped = ex_campus\<lparr>dict_heap := (dict_heap ex_campus)(1 := [''A'' \<mapsto> ''R100'', ''B'' \<mapsto> ''R50'']),
                          next_dict := 2\<rparr>"

definition valid_chrom :: "nat list list \<Rightarrow> nat list \<Rightarrow> bool" where
  "valid_chrom fr chrom \<longleftrightarrow> list_all2 (\<lambda>gene options. gene \<in> set options) chrom fr"

definition fits_list :: "Course list \<Rightarrow> nat list \<Rightarrow> (string \<rightharpoonup> string) \<Rightarrow> world \<Rightarrow> bool" where
  "fits_list courses rooms alloc w \<longleftrightarrow>
     (\<forall>c\<in>set courses.
        case alloc (course_id c) of None \<Rightarrow> False
        | Some k \<Rightarrow> (\<exists>r\<in>set rooms. room_id (room_heap w r) = k)
                   \<and> (\<forall>r\<in>set rooms. room_id (room_heap w r) = k
                         \<longrightarrow> course_size c \<le> capacity (room_heap w r)))"

definition distinct_room_ids :: "nat list \<Rightarrow> world \<Rightarrow> bool" where
  "distinct_room_ids rooms w \<longleftrightarrow>
     (\<forall>r\<in>set rooms. \<forall>r'\<in>set rooms. room_id (room_heap w r) = room_id (room_heap w r') \<longrightarrow> r = r')"

definition ex_booked :: world where
  "ex_booked = ex_campus\<lparr>room_heap := (\<lambda>r. if r = 0 then ex_r50\<lparr>schedule := [0 \<mapsto> ''B'']\<rparr>
                                            else if r = 1 then ex_r100\<lparr>schedule := [0 \<mapsto> ''A'']\<rparr>
                                            else ex_r100)\<rparr>"

definition ex_huge :: Course where
  "ex_huge = \<lparr>course_id = ''H'', course_size = 200, teacher = ex_near, students = [ex_near],
              timeslot = 0\<rparr>"

definition exact_fitness :: "Course list \<Rightarrow> nat list \<Rightarrow> world \<Rightarrow> nat list \<Rightarrow> real" where
  "exact_fitness courses rooms w chrom =
     (\<Sum>(i, idx)\<leftarrow>enumerate 0 chrom. exact_cost (courses ! i) (room_heap w (rooms ! idx)))"

definition ex_empty :: Course where
  "ex_empty = \<lparr>course_id = ''E'', course_size = 0, teacher = ex_near, students = [],
               timeslot = 0\<rparr>"

text \<open>The campus with course \<open>E\<close> allocated to room \<open>R50\<close>.\<close>

definition ex_empty_campus :: world where
  "ex_empty_campus = ex_campus\<lparr>dict_heap := (\<lambda>_. [''E'' \<mapsto> ''R50''])\<rparr>"

section \<open>Floating-point arithmetic\<close>

text \<open>
  A Python \<^verbatim>\<open>float\<close> is an IEEE 754 binary64 number. The cost model above takes
  distances and sums in the reals, which serves wherever a result does not depend on the
  value of a cost. Local search compares a difference of costs with zero and adds such
  differences up; there the rounding of every operation matters, and the cost model and
  local search are given again below over the doubles.

  \<open>fl\<close> rounds a real to the nearest number with a mantissa of 53 bits, ties to the
  even mantissa, with the exponent of the unit in the last place kept at \<open>-1074\<close> or
  above (the subnormal numbers). \<open>rnd\<close> is \<open>fl\<close> with the overflow to an infinity.
\<close>

definition rne :: "real \<Rightarrow> int" where
  "rne y = (let f = \<lfloor>y\<rfloor>; d = y - of_int f in
     if d < 1 / 2 then f else if 1 / 2 < d then f + 1 else if even f then f else f + 1)"

definition pow2 :: "int \<Rightarrow> real" where
  "pow2 e = (if 0 \<le> e then 2 ^ nat e else 1 / 2 ^ nat (- e))"

definition ulp_exp :: "real \<Rightarrow> int" where
  "ulp_exp x = max \<lfloor>log 2 \<bar>x\<bar>\<rfloor> (- 1022) - 52"

definition fl :: "real \<Rightarrow> real" where
  "fl x = sgn x * (of_int (rne (\<bar>x\<bar> / pow2 (ulp_exp x))) * pow2 (ulp_exp x))"

text \<open>
  A double is a finite number, an infinity or a NaN; the two zeros are one value, as no
  operation of the program tells them apart. \<open>fadd\<close>, \<open>fsub\<close>, \<open>fmul\<close>, \<open>fless\<close> and
  \<open>fle\<close> are \<^verbatim>\<open>+\<close>, \<^verbatim>\<open>-\<close>, \<^verbatim>\<open>*\<close>, \<^verbatim>\<open><\<close> and \<^verbatim>\<open><=\<close> on floats.
\<close>

datatype double = Fin real | PInf | NInf | NaN

definition max_double :: real where
  "max_double = (2 ^ 53 - 1) * 2 ^ 971"

definition rnd :: "real \<Rightarrow> double" where
  "rnd x = (if max_double < fl x then PInf else if fl x < - max_double then NInf else Fin (fl x))"

fun fneg :: "double \<Rightarrow> double" where
  "fneg (Fin a) = Fin (- a)"
| "fneg PInf = NInf"
| "fneg NInf = PInf"
| "fneg NaN = NaN"

fun fadd :: "double \<Rightarrow> double \<Rightarrow> double" where
  "fadd (Fin a) (Fin b) = rnd (a + b)"
| "fadd NaN y = NaN"
| "fadd x NaN = NaN"
| "fadd PInf NInf = NaN"
| "fadd NInf PInf = NaN"
| "fadd PInf y = PInf"
| "fadd x PInf = PInf"
| "fadd NInf y = NInf"
| "fadd x NInf = NInf"

definition fsub :: "double \<Rightarrow> double \<Rightarrow> double" where
  "fsub x y = fadd x (fneg y)"

fun fmul :: "double \<Rightarrow> double \<Rightarrow> double" where
  "fmul (Fin a) (Fin b) = rnd (a * b)"
| "fmul NaN y = NaN"
| "fmul x NaN = NaN"
| "fmul (Fin a) y = (if a = 0 then NaN else if 0 < a then y else fneg y)"
| "fmul x (Fin b) = (if b = 0 then NaN else if 0 < b then x else fneg x)"
| "fmul x y = (if x = y then PInf else NInf)"

fun fless :: "double \<Rightarrow> double \<Rightarrow> bool" where
  "fless (Fin a) (Fin b) = (a < b)"
| "fless NInf (Fin b) = True"
| "fless NInf PInf = True"
| "fless (Fin a) PInf = True"
| "fless x y = False"

definition fle :: "double \<Rightarrow> double \<Rightarrow> bool" where
  "fle x y \<longleftrightarrow> fless x y \<or> x = y \<and> x \<noteq> NaN"

text \<open>
  \<^verbatim>\<open>sum\<close> starts from the integer \<open>0\<close> and adds the items from left to right (CPython
  up to 3.11; later versions compensate the rounding errors of the additions).
\<close>

definition py_sum :: "double list \<Rightarrow> double" where
  "py_sum xs = foldl fadd (Fin 0) xs"

section \<open>Cost model and local search over the doubles\<close>

text \<open>
  \<^verbatim>\<open>math.dist\<close>: the differences of the coordinates are doubles; an infinite difference
  gives an infinite distance, and the distance is otherwise taken as the rounded root of
  the sum of their squares. The coordinates are finite.
\<close>

definition euclidean_fp :: "coord \<Rightarrow> coord \<Rightarrow> double" where
  "euclidean_fp a b =
     (case (fsub (Fin (fst a)) (Fin (fst b)), fsub (Fin (snd a)) (Fin (snd b))) of
        (Fin dx, Fin dy) \<Rightarrow> rnd (sqrt (dx\<^sup>2 + dy\<^sup>2))
      | _ \<Rightarrow> PInf)"

definition travel_cost_fp :: "Course \<Rightarrow> Room \<Rightarrow> double M" where
  "travel_cost_fp course room =
     (let teacher_cost = euclidean_fp (person_coord (teacher course)) (room_coord room);
          k = min 30 (length (students course))
      in bind (if k < length (students course) then random_sample (students course) k
               else ret (students course)) (\<lambda>sample.
         if k = 0 then raise ZeroDivisionError
         else ret (fadd teacher_cost
                   (fmul (py_sum (map (\<lambda>s. euclidean_fp (person_coord s) (room_coord room)) sample))
                         (rnd (real (length (students course)) / real k))))))"

definition room_travel_cost_fp :: "Course \<Rightarrow> nat \<Rightarrow> double M" where
  "room_travel_cost_fp course r = (\<lambda>w. travel_cost_fp course (room_heap w r) w)"

definition cost_of_alloc_fp :: "Course list \<Rightarrow> (string \<rightharpoonup> nat) \<Rightarrow> nat \<Rightarrow> double M" where
  "cost_of_alloc_fp courses rooms alloc =
     bind (mapM (\<lambda>course.
             bind (dict_get alloc (course_id course)) (\<lambda>k.
             bind (py_get rooms k) (\<lambda>r. room_travel_cost_fp course r))) courses)
       (\<lambda>costs. ret (py_sum costs))"

definition ls_step_fp :: "Course list \<Rightarrow> (string \<rightharpoonup> nat) \<Rightarrow> nat \<Rightarrow> double \<Rightarrow> double M" where
  "ls_step_fp courses rooms current current_cost =
     bind (random_sample courses 2) (\<lambda>pair.
       case pair of
         [c1, c2] \<Rightarrow>
           if timeslot c1 \<noteq> timeslot c2 then ret current_cost
           else
             bind (dict_get current (course_id c1)) (\<lambda>k1. bind (py_get rooms k1) (\<lambda>r1.
             bind (dict_get current (course_id c2)) (\<lambda>k2. bind (py_get rooms k2) (\<lambda>r2.
             bind (get_capacity r1) (\<lambda>cap1. bind (get_capacity r2) (\<lambda>cap2.
             if cap1 < course_size c2 \<or> cap2 < course_size c1 then ret current_cost
             else
               bind (room_travel_cost_fp c1 r2) (\<lambda>t12. bind (room_travel_cost_fp c2 r1) (\<lambda>t21.
               bind (room_travel_cost_fp c1 r1) (\<lambda>t11. bind (room_travel_cost_fp c2 r2) (\<lambda>t22.
               let delta = fsub (fsub (fadd t12 t21) t11) t22 in
               if fless delta (Fin 0) then
                 bind (get_room_id r2) (\<lambda>id2. bind (get_room_id r1) (\<lambda>id1.
                 bind (dict_set current (course_id c1) id2) (\<lambda>_.
                 bind (dict_set current (course_id c2) id1) (\<lambda>_.
                 ret (fadd current_cost delta)))))
               else ret current_cost))))))))))
       | _ \<Rightarrow> raise ValueError)"

fun ls_loop_fp :: "Course list \<Rightarrow> (string \<rightharpoonup> nat) \<Rightarrow> nat \<Rightarrow> nat \<Rightarrow> double \<Rightarrow> double M" where
  "ls_loop_fp courses rooms current 0 current_cost = ret current_cost"
| "ls_loop_fp courses rooms current (Suc n) current_cost =
     bind (ls_step_fp courses rooms current current_cost) (ls_loop_fp courses rooms current n)"

definition ls_run_fp :: "nat \<Rightarrow> Course list \<Rightarrow> (string \<rightharpoonup> nat) \<Rightarrow> int \<Rightarrow> (nat \<times> double \<times> double) M" where
  "ls_run_fp allocation courses rooms max_iter =
     bind (dict_copy allocation) (\<lambda>current.
     bind (cost_of_alloc_fp courses rooms current) (\<lambda>initial_cost.
     bind (ls_loop_fp courses rooms current (nat max_iter) initial_cost) (\<lambda>current_cost.
     ret (current, initial_cost, current_cost))))"

definition local_search_fp :: "nat \<Rightarrow> Course list \<Rightarrow> (string \<rightharpoonup> nat) \<Rightarrow> int \<Rightarrow> nat M" where
  "local_search_fp allocation courses rooms max_iter =
     bind (ls_run_fp allocation courses rooms max_iter) (\<lambda>(current, initial_cost, current_cost). ret current)"

text \<open>The finite doubles, and the values a tracked cost takes when it starts finite.\<close>

definition is_double :: "real \<Rightarrow> bool" where
  "is_double a \<longleftrightarrow> fl a = a \<and> \<bar>a\<bar> \<le> max_double"

definition tracked_ok :: "double \<Rightarrow> bool" where
  "tracked_ok c \<longleftrightarrow> c = NInf \<or> (\<exists>a. c = Fin a \<and> is_double a)"

text \<open>
  Three courses on a line. \<open>C1\<close> and \<open>C2\<close> meet in the same time slot, in the rooms
  \<open>R1\<close> and \<open>R2\<close>; \<open>C0\<close> meets in \<open>R1\<close> in another slot. The module-level generator
  is in a state where \<^verbatim>\<open>random.sample\<close> draws \<open>C1\<close> and \<open>C2\<close>.
\<close>

definition cx_c0 :: Course where
  "cx_c0 = \<lparr>course_id = ''C0'', course_size = 1,
             teacher = \<lparr>person_id = ''t0'', person_coord = (4, 0)\<rparr>,
             students = [\<lparr>person_id = ''s0'', person_coord = (0, 0)\<rparr>], timeslot = 1\<rparr>"

definition cx_c1 :: Course where
  "cx_c1 = \<lparr>course_id = ''C1'', course_size = 1,
             teacher = \<lparr>person_id = ''t1'', person_coord = (0, 0)\<rparr>,
             students = [\<lparr>person_id = ''s1'', person_coord = (9007199254740994, 0)\<rparr>],
             timeslot = 0\<rparr>"

definition cx_c2 :: Course where
  "cx_c2 = \<lparr>course_id = ''C2'', course_size = 1,
             teacher = \<lparr>person_id = ''t2'', person_coord = (1, 0)\<rparr>,
             students = [\<lparr>person_id = ''s2'', person_coord = (9007199254740992, 0)\<rparr>],
             timeslot = 0\<rparr>"

definition cx_r1 :: Room where
  "cx_r1 = \<lparr>room_id = ''R1'', capacity = 10, room_coord = (0, 0), schedule = Map.empty\<rparr>"

definition cx_r2 :: Room where
  "cx_r2 = \<lparr>room_id = ''R2'', capacity = 10, room_coord = (2, 0), schedule = Map.empty\<rparr>"

definition cx_rooms :: "string \<rightharpoonup> nat" where
  "cx_rooms = [''R1'' \<mapsto> 0, ''R2'' \<mapsto> 1]"

definition cx_world :: world where
  "cx_world = \<lparr>room_heap = (\<lambda>r. if r = 0 then cx_r1 else cx_r2),
                dict_heap = (\<lambda>d. if d = 0 then [''C0'' \<mapsto> ''R1'', ''C1'' \<mapsto> ''R1'', ''C2'' \<mapsto> ''R2'']
                                  else Map.empty),
                next_dict = 1, rng = (\<lambda>_. 0), glob = (\<lambda>_. 1)\<rparr>"

definition cx_swapped :: world where
  "cx_swapped = cx_world\<lparr>dict_heap := (dict_heap cx_world)
                    (1 := [''C0'' \<mapsto> ''R1'', ''C1'' \<mapsto> ''R2'', ''C2'' \<mapsto> ''R1'']),
                  next_dict := 2\<rparr>"


text \<open>
  The example campus after \<^verbatim>\<open>allocation.copy()\<close>, and a course placed like \<open>ex_b\<close>
  under the identifier of \<open>ex_a\<close>: exchanging its room with that of \<open>ex_b\<close> changes
  no cost.
\<close>

definition ex_copied :: world where
  "ex_copied = ex_campus\<lparr>dict_heap := (dict_heap ex_campus)(1 := dict_heap ex_campus 0),
                          next_dict := 2\<rparr>"

definition ex_twin :: Course where
  "ex_twin = \<lparr>course_id = ''A'', course_size = 30, teacher = ex_near, students = [ex_near],
              timeslot = 0\<rparr>"

section \<open>The monad\<close>

lemma bind_Inr_iff:
  "bind m f w = Inr r \<longleftrightarrow> (\<exists>x w'. m w = Inr (x, w') \<and> f x w' = Inr r)"
  by (auto simp: bind_def split: sum.splits)

lemma bind_ret [simp]: "bind (ret x) f = f x"
  by (simp add: bind_def ret_def)

lemma bind_raise [simp]: "bind (raise e) f = raise e"
  by (simp add: bind_def raise_def)

lemma ret_apply [simp]: "ret x w = Inr (x, w)"
  by (simp add: ret_def)

lemma raise_apply [simp]: "raise e w = Inl e"
  by (simp add: raise_def)

lemma mapM_length: "mapM f xs w = Inr (ys, w') \<Longrightarrow> length ys = length xs"
  by (induction xs arbitrary: ys w) (auto simp: bind_Inr_iff)

section \<open>The cost model\<close>

text \<open>
  With at most 30 students no sample is drawn: either the roster is empty and the
  division raises, or the cost is the exact one and the world is left as it was.
\<close>

lemma travel_cost_small:
  assumes "length (students course) \<le> 30"
  shows "travel_cost course room w =
    (if students course = [] then Inl ZeroDivisionError else Inr (exact_cost course room, w))"
  using assms by (auto simp: travel_cost_def exact_cost_def Let_def min_def)

lemma random_sample_zeros:
  "glob w = (\<lambda>_. 0) \<Longrightarrow> k \<le> length xs \<Longrightarrow> random_sample xs k w = Inr (take k xs, w)"
proof (induction k arbitrary: xs)
  case 0
  then show ?case by simp
next
  case (Suc k)
  then obtain x xs' where xs: "xs = x # xs'"
    by (cases xs) auto
  have "draw_glob w = Inr (0, w)"
    using Suc.prems(1) by (simp add: draw_glob_def)
  then show ?case
    using Suc xs by (simp add: bind_def)
qed

lemma travel_cost_ex_big_zeros: "travel_cost ex_big ex_room ex_world = Inr (0, ex_world)"
proof -
  have "random_sample (students ex_big) 30 ex_world = Inr (take 30 (students ex_big), ex_world)"
    by (rule random_sample_zeros) (simp_all add: ex_world_def ex_big_def)
  then show ?thesis
    by (simp add: travel_cost_def bind_def ex_big_def ex_near_def euclidean_def ex_room_def
        sum_list_replicate)
qed

lemma travel_cost_ex_big_last:
  "travel_cost ex_big ex_room (ex_world\<lparr>glob := \<lambda>n. if n = 0 then 30 else 0\<rparr>)
   = Inr (31 / 30, ex_world)"
proof -
  let ?w = "ex_world\<lparr>glob := \<lambda>n. if n = 0 then 30 else 0\<rparr>"
  have d: "draw_glob ?w = Inr (30, ex_world)"
    by (simp add: draw_glob_def ex_world_def)
  have r: "random_sample (replicate 30 ex_near) 29 ex_world
           = Inr (take 29 (replicate 30 ex_near), ex_world)"
    by (rule random_sample_zeros) (simp_all add: ex_world_def)
  have "random_sample (students ex_big) (Suc 29) ?w
        = Inr (ex_far # take 29 (replicate 30 ex_near), ex_world)"
    unfolding random_sample.simps by (simp add: bind_def d r ex_big_def nth_append)
  then have "random_sample (students ex_big) 30 ?w = Inr (ex_far # replicate 29 ex_near, ex_world)"
    by simp
  then show ?thesis
    by (simp add: travel_cost_def bind_def ex_big_def ex_near_def ex_far_def euclidean_def
        ex_room_def sum_list_replicate)
qed

text \<open>
  C8. For a course of at least one and at most 30 students, \<open>travel_cost\<close> returns, whatever
  the random sources hold and without drawing from them, the teacher's distance to the room
  plus the sum of the students' distances. For a roster of more than 30 students the value
  depends on the draws: there are a course, a room and two states of the module-level
  generator for which the two calls return different costs.
\<close>

theorem travel_cost_exact_or_sampled:
  "(1 \<le> length (students course) \<and> length (students course) \<le> 30
      \<longrightarrow> travel_cost course room w = Inr (exact_cost course room, w))
   \<and> (\<exists>c r w0 g v v' w1 w2. 30 < length (students c)
        \<and> travel_cost c r w0 = Inr (v, w1)
        \<and> travel_cost c r (w0\<lparr>glob := g\<rparr>) = Inr (v', w2) \<and> v \<noteq> v')"
proof (intro conjI impI)
  assume "1 \<le> length (students course) \<and> length (students course) \<le> 30"
  then show "travel_cost course room w = Inr (exact_cost course room, w)"
    by (auto simp: travel_cost_small)
next
  have "30 < length (students ex_big)"
    by (simp add: ex_big_def)
  moreover have "(0::real) \<noteq> 31 / 30"
    by simp
  ultimately show "\<exists>c r w0 g v v' w1 w2. 30 < length (students c)
        \<and> travel_cost c r w0 = Inr (v, w1)
        \<and> travel_cost c r (w0\<lparr>glob := g\<rparr>) = Inr (v', w2) \<and> v \<noteq> v'"
    using travel_cost_ex_big_zeros travel_cost_ex_big_last by blast
qed

theorem travel_cost_exact_or_sampled_witness:
  "1 \<le> length (students ex_small) \<and> length (students ex_small) \<le> 30
   \<and> travel_cost ex_small ex_room ex_world = Inr (2, ex_world)"
proof -
  have "exact_cost ex_small ex_room = 2"
    by (simp add: exact_cost_def ex_small_def ex_far_def ex_near_def ex_room_def euclidean_def)
  then show ?thesis
    using travel_cost_exact_or_sampled [of ex_small ex_room ex_world]
    by (simp add: ex_small_def)
qed

section \<open>Computations that only draw\<close>

lemma same_heap_refl [simp]: "same_heap w w"
  by (simp add: same_heap_def)

lemma same_heap_trans: "same_heap w w' \<Longrightarrow> same_heap w' w'' \<Longrightarrow> same_heap w w''"
  by (simp add: same_heap_def)

lemma heap_pureD: "heap_pure m \<Longrightarrow> m w = Inr (x, w') \<Longrightarrow> same_heap w w'"
  by (auto simp: heap_pure_def)

lemma heap_pure_ret [simp]: "heap_pure (ret x)"
  by (simp add: heap_pure_def)

lemma heap_pure_raise [simp]: "heap_pure (raise e)"
  by (simp add: heap_pure_def)

lemma heap_pure_Inr [simp]: "heap_pure (\<lambda>w. Inr (x, w))"
  by (simp add: heap_pure_def)

lemma heap_pure_Inl [simp]: "heap_pure (\<lambda>w. Inl e)"
  by (simp add: heap_pure_def)

lemma heap_pure_bind: "heap_pure m \<Longrightarrow> (\<And>x. heap_pure (f x)) \<Longrightarrow> heap_pure (bind m f)"
  unfolding heap_pure_def bind_Inr_iff by (blast intro: same_heap_trans)

lemma heap_pure_draw_glob [simp]: "heap_pure draw_glob"
  by (auto simp: heap_pure_def draw_glob_def same_heap_def)

lemma heap_pure_draw_rng [simp]: "heap_pure draw_rng"
  by (auto simp: heap_pure_def draw_rng_def same_heap_def)

lemma heap_pure_mapM: "(\<And>x. x \<in> set xs \<Longrightarrow> heap_pure (f x)) \<Longrightarrow> heap_pure (mapM f xs)"
  by (induction xs) (auto intro!: heap_pure_bind)

lemma heap_pure_random_sample [simp]: "heap_pure (random_sample xs k)"
  by (induction xs k rule: random_sample.induct) (auto intro!: heap_pure_bind simp: Let_def)

lemma heap_pure_travel_cost [simp]: "heap_pure (travel_cost c r)"
  by (auto simp: travel_cost_def Let_def intro!: heap_pure_bind)

lemma heap_pure_room_travel_cost [simp]: "heap_pure (room_travel_cost c r)"
  using heap_pure_travel_cost by (auto simp: heap_pure_def room_travel_cost_def)

lemma heap_pure_min_by: "(\<And>x. x \<in> set xs \<Longrightarrow> heap_pure (f x)) \<Longrightarrow> heap_pure (min_by f xs)"
  by (auto simp: min_by_def intro!: heap_pure_bind heap_pure_mapM split: list.splits)

lemma first_min_mem: "first_min p ps \<in> snd ` set (p # ps)"
  by (induction p ps rule: first_min.induct) auto

lemma min_by_mem: "min_by f xs w = Inr (x, w') \<Longrightarrow> x \<in> set xs"
proof -
  assume a: "min_by f xs w = Inr (x, w')"
  then obtain ks w1 where k: "mapM f xs w = Inr (ks, w1)"
    and r: "(case zip ks xs of [] \<Rightarrow> raise ValueError | p # ps \<Rightarrow> ret (first_min p ps)) w1 = Inr (x, w')"
    by (auto simp: min_by_def bind_Inr_iff)
  from r obtain p ps where z: "zip ks xs = p # ps" and x: "x = first_min p ps"
    by (auto split: list.splits)
  have "x \<in> snd ` set (zip ks xs)"
    using first_min_mem [of p ps] z x by simp
  then show ?thesis
    by (auto dest: set_zip_rightD)
qed

lemma random_sample_ok:
  "k \<le> length xs \<Longrightarrow> \<exists>ys w'. random_sample xs k w = Inr (ys, w') \<and> length ys = k \<and> set ys \<subseteq> set xs"
proof (induction k arbitrary: xs w)
  case 0
  then show ?case by simp
next
  case (Suc k)
  define i where "i = glob w 0 mod length xs"
  define w1 where "w1 = w\<lparr>glob := \<lambda>n. glob w (Suc n)\<rparr>"
  define rest where "rest = take i xs @ drop (Suc i) xs"
  from Suc.prems have ne: "xs \<noteq> []" by auto
  then have i: "i < length xs" by (simp add: i_def)
  then have "k \<le> length rest"
    using Suc.prems by (simp add: rest_def)
  from Suc.IH [OF this, of w1] obtain ys w' where
    ys: "random_sample rest k w1 = Inr (ys, w')" "length ys = k" "set ys \<subseteq> set rest"
    by auto
  have "set rest \<subseteq> set xs"
    by (auto simp: rest_def dest: in_set_takeD in_set_dropD)
  moreover have "random_sample xs (Suc k) w = Inr (xs ! i # ys, w')"
    using ne ys(1) by (simp add: bind_def draw_glob_def Let_def i_def w1_def rest_def)
  ultimately show ?case
    using ys i by auto
qed

lemma travel_cost_cases:
  "travel_cost c r w = Inl ZeroDivisionError \<and> students c = []
   \<or> (\<exists>v w'. travel_cost c r w = Inr (v, w') \<and> students c \<noteq> [])"
proof (cases "length (students c) \<le> 30")
  case True
  then show ?thesis by (simp add: travel_cost_small)
next
  case False
  then obtain ys w' where "random_sample (students c) 30 w = Inr (ys, w')"
    using random_sample_ok [of 30 "students c" w] by auto
  then show ?thesis
    using False by (auto simp: travel_cost_def Let_def min_def bind_def)
qed

lemma mapM_Inl: "mapM f xs w = Inl e \<Longrightarrow> \<exists>x\<in>set xs. \<exists>w'. f x w' = Inl e"
proof (induction xs arbitrary: w)
  case Nil
  then show ?case by simp
next
  case (Cons a xs)
  show ?case
  proof (cases "f a w")
    case (Inl e')
    then show ?thesis using Cons.prems by (auto simp: bind_def)
  next
    case (Inr p)
    then obtain y w1 where p: "f a w = Inr (y, w1)" by (cases p) auto
    then have "mapM f xs w1 = Inl e"
      using Cons.prems by (auto simp: bind_def split: sum.splits)
    then show ?thesis using Cons.IH by auto
  qed
qed

section \<open>The greedy allocator places every course\<close>

lemma greedy_step_Inr:
  assumes "greedy_step rooms c alloc w = Inr (alloc', w')"
  obtains b where "b \<in> set rooms"
    and "is_available (room_heap w b) (timeslot c) (course_size c)"
    and "alloc' = alloc(course_id c \<mapsto> room_id (room_heap w b))"
    and "room_heap w' = (room_heap w)(b := book c (room_heap w b))"
    and "dict_heap w' = dict_heap w" and "next_dict w' = next_dict w"
proof -
  let ?feasible = "filter (\<lambda>r. is_available (room_heap w r) (timeslot c) (course_size c)) rooms"
  from assms obtain b w1 where m: "min_by (room_travel_cost c) ?feasible w = Inr (b, w1)"
    and a: "alloc' = alloc(course_id c \<mapsto> room_id (room_heap w1 b))"
    and w': "w' = w1\<lparr>room_heap := (room_heap w1)(b := book c (room_heap w1 b))\<rparr>"
    by (auto simp: greedy_step_def Let_def bind_Inr_iff book_def split: if_splits)
  have "heap_pure (min_by (room_travel_cost c) ?feasible)"
    by (rule heap_pure_min_by) simp
  then have s: "same_heap w w1"
    using m by (rule heap_pureD)
  have "b \<in> set ?feasible"
    using m by (rule min_by_mem)
  then show ?thesis
    using that [of b] a w' s by (simp add: same_heap_def)
qed

lemma greedy_step_places:
  assumes "greedy_step rooms c alloc w = Inr (alloc', w')"
  shows "placed rooms alloc' w' c"
  using assms by (elim greedy_step_Inr) (auto simp: placed_def is_available_def book_def)

lemma greedy_step_keeps:
  assumes "greedy_step rooms c alloc w = Inr (alloc', w')"
    and "placed rooms alloc w d" and "course_id d \<noteq> course_id c"
  shows "placed rooms alloc' w' d"
proof -
  from assms(1) obtain b where b: "is_available (room_heap w b) (timeslot c) (course_size c)"
    "alloc' = alloc(course_id c \<mapsto> room_id (room_heap w b))"
    "room_heap w' = (room_heap w)(b := book c (room_heap w b))"
    by (elim greedy_step_Inr)
  from assms(2) obtain r where r: "r \<in> set rooms"
    "alloc (course_id d) = Some (room_id (room_heap w r))"
    "course_size d \<le> capacity (room_heap w r)"
    "schedule (room_heap w r) (timeslot d) = Some (course_id d)"
    by (auto simp: placed_def)
  have "timeslot d \<noteq> timeslot c" if "r = b"
    using that b(1) r(4) by (auto simp: is_available_def)
  then show ?thesis
    unfolding placed_def using r b(2,3) assms(3)
    by (intro bexI [of _ r]) (auto simp: book_def)
qed

lemma greedy_step_frame:
  assumes "greedy_step rooms c alloc w = Inr (alloc', w')"
  shows "room_id (room_heap w' r) = room_id (room_heap w r)"
    and "capacity (room_heap w' r) = capacity (room_heap w r)"
    and "room_coord (room_heap w' r) = room_coord (room_heap w r)"
    and "dict_heap w' = dict_heap w" and "next_dict w' = next_dict w"
    and "dom alloc' = insert (course_id c) (dom alloc)"
  using assms by (elim greedy_step_Inr; simp add: book_def)+

lemma greedy_loop_frame:
  assumes "greedy_loop rooms cs alloc w = Inr (alloc', w')"
  shows "room_id (room_heap w' r) = room_id (room_heap w r)
    \<and> capacity (room_heap w' r) = capacity (room_heap w r)
    \<and> room_coord (room_heap w' r) = room_coord (room_heap w r)
    \<and> dict_heap w' = dict_heap w \<and> next_dict w' = next_dict w
    \<and> dom alloc' = course_id ` set cs \<union> dom alloc"
  using assms
proof (induction cs arbitrary: alloc w)
  case Nil
  then show ?case by simp
next
  case (Cons c cs)
  then obtain a1 w1 where s: "greedy_step rooms c alloc w = Inr (a1, w1)"
    and l: "greedy_loop rooms cs a1 w1 = Inr (alloc', w')"
    by (auto simp: bind_Inr_iff)
  show ?case
    using Cons.IH [OF l] greedy_step_frame [OF s] by auto
qed

lemma greedy_loop_placed:
  assumes "greedy_loop rooms cs alloc w = Inr (alloc', w')"
    and "distinct (map course_id (ds @ cs))"
    and "\<forall>d\<in>set ds. placed rooms alloc w d"
  shows "\<forall>d\<in>set (ds @ cs). placed rooms alloc' w' d"
  using assms
proof (induction cs arbitrary: alloc w ds)
  case Nil
  then show ?case by simp
next
  case (Cons c cs)
  then obtain a1 w1 where s: "greedy_step rooms c alloc w = Inr (a1, w1)"
    and l: "greedy_loop rooms cs a1 w1 = Inr (alloc', w')"
    by (auto simp: bind_Inr_iff)
  have "placed rooms a1 w1 d" if "d \<in> set ds" for d
  proof -
    from Cons.prems(2) have "course_id c \<notin> course_id ` set ds"
      by auto
    with that have "course_id d \<noteq> course_id c"
      by (metis imageI)
    with that Cons.prems(3) show ?thesis
      by (auto intro: greedy_step_keeps [OF s])
  qed
  then have "\<forall>d\<in>set (ds @ [c]). placed rooms a1 w1 d"
    using greedy_step_places [OF s] by auto
  moreover have "distinct (map course_id ((ds @ [c]) @ cs))"
    using Cons.prems(2) by simp
  ultimately have "\<forall>d\<in>set ((ds @ [c]) @ cs). placed rooms alloc' w' d"
    using Cons.IH [OF l] by blast
  then show ?case by simp
qed

lemma sorted_courses_set [simp]: "set (sorted_courses cs) = set cs"
  by (simp add: sorted_courses_def)

lemma sorted_courses_distinct:
  "distinct (map course_id (sorted_courses cs)) = distinct (map course_id cs)"
  by (simp add: distinct_map sorted_courses_def)

lemma greedy_allocate_placed:
  assumes "greedy_allocate courses rooms w = Inr (alloc, w')"
    and "distinct (map course_id courses)"
  shows "\<forall>c\<in>set courses. placed rooms alloc w' c"
  using greedy_loop_placed [of rooms "sorted_courses courses" Map.empty w alloc w' "[]"] assms
  by (simp add: greedy_allocate_def sorted_courses_distinct)

section \<open>One iteration of local search\<close>

lemma heap_pure_py_get [simp]: "heap_pure (py_get d k)"
  by (simp add: py_get_def split: option.splits)

lemma heap_pure_dict_get [simp]: "heap_pure (dict_get d k)"
  by (auto simp: heap_pure_def dict_get_def py_get_def split: option.splits)

lemma heap_pure_get_capacity [simp]: "heap_pure (get_capacity r)"
  by (simp add: heap_pure_def get_capacity_def)

lemma heap_pure_get_room_id [simp]: "heap_pure (get_room_id r)"
  by (simp add: heap_pure_def get_room_id_def)

lemma ls_step_cases:
  assumes "ls_step courses rooms cur cost w = Inr (cost', w')"
  obtains (skip) "same_heap w w'" and "cost' = cost"
  | (swap) c1 c2 k1 k2 r1 r2 t12 t21 t11 t22 w1 w2 w3 w4 w5 where
      "random_sample courses 2 w = Inr ([c1, c2], w1)"
      "timeslot c1 = timeslot c2"
      "dict_heap w cur (course_id c1) = Some k1" "rooms k1 = Some r1"
      "dict_heap w cur (course_id c2) = Some k2" "rooms k2 = Some r2"
      "course_size c2 \<le> capacity (room_heap w r1)" "course_size c1 \<le> capacity (room_heap w r2)"
      "room_travel_cost c1 r2 w1 = Inr (t12, w2)" "room_travel_cost c2 r1 w2 = Inr (t21, w3)"
      "room_travel_cost c1 r1 w3 = Inr (t11, w4)" "room_travel_cost c2 r2 w4 = Inr (t22, w5)"
      "t12 + t21 - t11 - t22 < 0" "cost' = cost + (t12 + t21 - t11 - t22)"
      "same_heap w w1" "same_heap w w2" "same_heap w w3" "same_heap w w4" "same_heap w w5"
      "w' = w5\<lparr>dict_heap := (dict_heap w5)(cur :=
               swap_entries (dict_heap w cur) c1 c2 (room_id (room_heap w r1)) (room_id (room_heap w r2)))\<rparr>"
proof -
  from assms obtain pair w1 where s: "random_sample courses 2 w = Inr (pair, w1)"
    by (auto simp: ls_step_def bind_Inr_iff)
  have h1: "same_heap w w1"
    using s heap_pure_random_sample by (rule heap_pureD [rotated])
  from assms s obtain c1 c2 where pair: "pair = [c1, c2]"
    by (auto simp: ls_step_def bind_def split: list.splits)
  show ?thesis
  proof (cases "timeslot c1 = timeslot c2")
    case False
    then have "cost' = cost" "w' = w1"
      using assms s pair by (auto simp: ls_step_def bind_def)
    then show ?thesis using skip h1 by simp
  next
    case ts: True
    from assms s pair ts obtain k1 r1 k2 r2 where
      k: "dict_heap w1 cur (course_id c1) = Some k1" "rooms k1 = Some r1"
         "dict_heap w1 cur (course_id c2) = Some k2" "rooms k2 = Some r2"
      by (auto simp: ls_step_def bind_def dict_get_def py_get_def split: option.splits)
    let ?body = "bind (room_travel_cost c1 r2) (\<lambda>t12. bind (room_travel_cost c2 r1) (\<lambda>t21.
               bind (room_travel_cost c1 r1) (\<lambda>t11. bind (room_travel_cost c2 r2) (\<lambda>t22.
               let delta = t12 + t21 - t11 - t22 in
               if delta < 0 then
                 bind (get_room_id r2) (\<lambda>id2. bind (get_room_id r1) (\<lambda>id1.
                 bind (dict_set cur (course_id c1) id2) (\<lambda>_.
                 bind (dict_set cur (course_id c2) id1) (\<lambda>_.
                 ret (cost + delta)))))
               else ret cost))))"
    have step: "ls_step courses rooms cur cost w =
      (if capacity (room_heap w1 r1) < course_size c2 \<or> capacity (room_heap w1 r2) < course_size c1
       then Inr (cost, w1) else ?body w1)"
      using s pair ts k
      by (simp add: ls_step_def bind_def dict_get_def py_get_def get_capacity_def)
    show ?thesis
    proof (cases "capacity (room_heap w1 r1) < course_size c2 \<or> capacity (room_heap w1 r2) < course_size c1")
      case True
      then have "cost' = cost" "w' = w1"
        using assms step by auto
      then show ?thesis using skip h1 by simp
    next
      case cap: False
      then have b: "?body w1 = Inr (cost', w')"
        using assms step by simp
      then obtain t12 w2 t21 w3 t11 w4 t22 w5 where
        t: "room_travel_cost c1 r2 w1 = Inr (t12, w2)" "room_travel_cost c2 r1 w2 = Inr (t21, w3)"
           "room_travel_cost c1 r1 w3 = Inr (t11, w4)" "room_travel_cost c2 r2 w4 = Inr (t22, w5)"
        and rest: "(let delta = t12 + t21 - t11 - t22 in
               if delta < 0 then
                 bind (get_room_id r2) (\<lambda>id2. bind (get_room_id r1) (\<lambda>id1.
                 bind (dict_set cur (course_id c1) id2) (\<lambda>_.
                 bind (dict_set cur (course_id c2) id1) (\<lambda>_.
                 ret (cost + delta)))))
               else ret cost) w5 = Inr (cost', w')"
        unfolding bind_Inr_iff by blast
      have h2: "same_heap w w2"
        using h1 heap_pureD [OF heap_pure_room_travel_cost t(1)] by (rule same_heap_trans)
      have h3: "same_heap w w3"
        using h2 heap_pureD [OF heap_pure_room_travel_cost t(2)] by (rule same_heap_trans)
      have h4: "same_heap w w4"
        using h3 heap_pureD [OF heap_pure_room_travel_cost t(3)] by (rule same_heap_trans)
      have h5: "same_heap w w5"
        using h4 heap_pureD [OF heap_pure_room_travel_cost t(4)] by (rule same_heap_trans)
      show ?thesis
      proof (cases "t12 + t21 - t11 - t22 < 0")
        case False
        then have "cost' = cost" "w' = w5"
          using rest by (auto simp: Let_def)
        then show ?thesis using skip h5 by simp
      next
        case True
        then have "cost' = cost + (t12 + t21 - t11 - t22)"
          and "w' = w5\<lparr>dict_heap := (dict_heap w5)(cur :=
               swap_entries (dict_heap w cur) c1 c2 (room_id (room_heap w r1)) (room_id (room_heap w r2)))\<rparr>"
          using rest h5
          by (auto simp: Let_def bind_def get_room_id_def dict_set_def swap_entries_def same_heap_def)
        then show ?thesis
          using swap [OF s [unfolded pair] ts _ k(2) _ k(4) _ _ t True _ h1 h2 h3 h4 h5] k(1,3) cap h1
          by (auto simp: same_heap_def)
      qed
    qed
  qed
qed

section \<open>Invariants of local search\<close>

lemma option_cases_iff:
  "(case a of None \<Rightarrow> False | Some k \<Rightarrow> (case f k of None \<Rightarrow> False | Some r \<Rightarrow> P r))
   \<longleftrightarrow> (\<exists>k r. a = Some k \<and> f k = Some r \<and> P r)"
  by (cases a) (auto split: option.splits)

lemma fits_dict_iff:
  "fits_dict courses rooms alloc w \<longleftrightarrow>
     (\<forall>c\<in>set courses. \<exists>k r. alloc (course_id c) = Some k \<and> rooms k = Some r
        \<and> course_size c \<le> capacity (room_heap w r))"
  by (simp add: fits_dict_def option_cases_iff)

lemma random_sample_distinct:
  assumes "random_sample xs k w = Inr (ys, w')" and "distinct (map f xs)"
  shows "distinct (map f ys) \<and> set ys \<subseteq> set xs"
  using assms
proof (induction k arbitrary: xs w ys)
  case 0
  then show ?case by simp
next
  case (Suc k)
  define i where "i = glob w 0 mod length xs"
  define rest where "rest = take i xs @ drop (Suc i) xs"
  from Suc.prems(1) have ne: "xs \<noteq> []"
    by (auto split: if_splits)
  then have i: "i < length xs" by (simp add: i_def)
  from Suc.prems(1) ne obtain ys' where
    r: "random_sample rest k (w\<lparr>glob := \<lambda>n. glob w (Suc n)\<rparr>) = Inr (ys', w')" and ys: "ys = xs ! i # ys'"
    by (auto simp: bind_Inr_iff draw_glob_def Let_def i_def rest_def)
  have xs: "xs = take i xs @ xs ! i # drop (Suc i) xs"
    using i by (rule id_take_nth_drop)
  have "distinct (map f (take i xs @ xs ! i # drop (Suc i) xs))"
    using Suc.prems(2) xs by simp
  then have d: "distinct (map f rest)" and n: "f (xs ! i) \<notin> f ` set rest"
    by (auto simp: rest_def)
  have "set rest \<subseteq> set xs"
    by (auto simp: rest_def dest: in_set_takeD in_set_dropD)
  with Suc.IH [OF r d] n i show ?case
    by (auto simp: ys)
qed

lemma distinct_ids_eq:
  "distinct (map course_id courses) \<Longrightarrow> c \<in> set courses \<Longrightarrow> d \<in> set courses
   \<Longrightarrow> course_id c = course_id d \<Longrightarrow> c = d"
  by (auto simp: distinct_map dest: inj_onD)

lemma ls_step_frame:
  assumes "ls_step courses rooms cur cost w = Inr (cost', w')"
  shows "room_heap w' = room_heap w" and "next_dict w' = next_dict w"
    and "a \<noteq> cur \<Longrightarrow> dict_heap w' a = dict_heap w a"
  using assms by (cases rule: ls_step_cases; simp add: same_heap_def)+

lemma ls_step_fits:
  assumes step: "ls_step courses rooms cur cost w = Inr (cost', w')"
    and ids: "distinct (map course_id courses)" and key: "rooms_by_id rooms w"
    and fits: "fits_dict courses rooms (dict_heap w cur) w"
  shows "fits_dict courses rooms (dict_heap w' cur) w'"
  using step
proof (cases rule: ls_step_cases)
  case skip
  then have "room_heap w' = room_heap w" "dict_heap w' = dict_heap w"
    by (simp_all add: same_heap_def)
  then show ?thesis using fits by (simp add: fits_dict_iff)
next
  case (swap c1 c2 k1 k2 r1 r2 t12 t21 t11 t22 w1 w2 w3 w4 w5)
  have mem: "c1 \<in> set courses" "c2 \<in> set courses"
    using random_sample_distinct [OF swap(1) ids] by auto
  have id1: "room_id (room_heap w r1) = k1" and id2: "room_id (room_heap w r2) = k2"
    using key swap(4,6) by (auto simp: rooms_by_id_def)
  have heap: "room_heap w' = room_heap w"
    and dict: "dict_heap w' cur = (dict_heap w cur)(course_id c1 \<mapsto> k2, course_id c2 \<mapsto> k1)"
    using swap(19,20) by (simp_all add: same_heap_def swap_entries_def id1 id2)
  show ?thesis
    unfolding fits_dict_iff
  proof
    fix c assume c: "c \<in> set courses"
    consider "course_id c = course_id c2" | "course_id c \<noteq> course_id c2" "course_id c = course_id c1"
      | "course_id c \<noteq> course_id c2" "course_id c \<noteq> course_id c1"
      by blast
    then show "\<exists>k r. dict_heap w' cur (course_id c) = Some k \<and> rooms k = Some r
        \<and> course_size c \<le> capacity (room_heap w' r)"
    proof cases
      case 1
      then have "c = c2" using distinct_ids_eq [OF ids c mem(2)] by simp
      then show ?thesis using swap(4,7) by (simp add: dict heap)
    next
      case 2
      then have "c = c1" using distinct_ids_eq [OF ids c mem(1)] by simp
      then show ?thesis using swap(6,8) 2 by (simp add: dict heap)
    next
      case 3
      then show ?thesis using fits c by (simp add: dict heap fits_dict_iff)
    qed
  qed
qed

lemma ls_step_no_clash:
  assumes step: "ls_step courses rooms cur cost w = Inr (cost', w')"
    and ids: "distinct (map course_id courses)" and key: "rooms_by_id rooms w"
    and nc: "no_clash courses (dict_heap w cur)"
  shows "no_clash courses (dict_heap w' cur)"
  using step
proof (cases rule: ls_step_cases)
  case skip
  then show ?thesis using nc by (simp add: same_heap_def)
next
  case (swap c1 c2 k1 k2 r1 r2 t12 t21 t11 t22 w1 w2 w3 w4 w5)
  let ?d = "dict_heap w cur" and ?d' = "dict_heap w' cur"
  have sel: "distinct (map course_id [c1, c2])" "set [c1, c2] \<subseteq> set courses"
    using random_sample_distinct [OF swap(1) ids] by auto
  then have mem: "c1 \<in> set courses" "c2 \<in> set courses" and ne: "course_id c1 \<noteq> course_id c2"
    by auto
  have id1: "room_id (room_heap w r1) = k1" and id2: "room_id (room_heap w r2) = k2"
    using key swap(4,6) by (auto simp: rooms_by_id_def)
  have dict: "?d' = ?d(course_id c1 \<mapsto> k2, course_id c2 \<mapsto> k1)"
    using swap(20) by (simp add: swap_entries_def id1 id2)
  define s where "s x = (if course_id x = course_id c1 then c2
                        else if course_id x = course_id c2 then c1 else x)" for x
  have s_mem: "s x \<in> set courses" if "x \<in> set courses" for x
    using that mem by (simp add: s_def)
  have s_slot: "timeslot (s x) = timeslot x" if "x \<in> set courses" for x
    using that mem swap(2) distinct_ids_eq [OF ids that mem(1)] distinct_ids_eq [OF ids that mem(2)]
    by (auto simp: s_def)
  have s_dict: "?d' (course_id x) = ?d (course_id (s x))" for x
    using ne swap(3,5) by (simp add: dict s_def)
  have s_inj: "course_id (s x) \<noteq> course_id (s y)" if "course_id x \<noteq> course_id y" for x y
    using that ne by (auto simp: s_def)
  show ?thesis
    unfolding no_clash_def
  proof (intro ballI impI)
    fix a b
    assume a: "a \<in> set courses" and b: "b \<in> set courses"
      and h: "course_id a \<noteq> course_id b \<and> timeslot a = timeslot b \<and> ?d' (course_id a) \<noteq> None"
    have "course_id (s a) \<noteq> course_id (s b) \<and> timeslot (s a) = timeslot (s b)
          \<and> ?d (course_id (s a)) \<noteq> None"
      using h s_inj s_slot [OF a] s_slot [OF b] s_dict [of a] by simp
    then have "?d (course_id (s a)) \<noteq> ?d (course_id (s b))"
      using nc s_mem [OF a] s_mem [OF b] unfolding no_clash_def by blast
    then show "?d' (course_id a) \<noteq> ?d' (course_id b)"
      by (simp add: s_dict)
  qed
qed

lemma ls_loop_inv:
  assumes "ls_loop courses rooms cur n cost w = Inr (cost', w')"
    and "distinct (map course_id courses)" and "rooms_by_id rooms w"
  shows "room_heap w' = room_heap w \<and> next_dict w' = next_dict w
    \<and> (\<forall>a. a \<noteq> cur \<longrightarrow> dict_heap w' a = dict_heap w a)
    \<and> (fits_dict courses rooms (dict_heap w cur) w \<longrightarrow> fits_dict courses rooms (dict_heap w' cur) w')
    \<and> (no_clash courses (dict_heap w cur) \<longrightarrow> no_clash courses (dict_heap w' cur))"
  using assms
proof (induction n arbitrary: cost w)
  case 0
  then show ?case by simp
next
  case (Suc n)
  then obtain c1 w1 where s: "ls_step courses rooms cur cost w = Inr (c1, w1)"
    and l: "ls_loop courses rooms cur n c1 w1 = Inr (cost', w')"
    by (auto simp: bind_Inr_iff)
  have f: "room_heap w1 = room_heap w" "next_dict w1 = next_dict w"
    "\<And>a. a \<noteq> cur \<Longrightarrow> dict_heap w1 a = dict_heap w a"
    using ls_step_frame [OF s] by auto
  then have "rooms_by_id rooms w1"
    using Suc.prems(3) by (simp add: rooms_by_id_def)
  from Suc.IH [OF l Suc.prems(2) this] f
    ls_step_fits [OF s Suc.prems(2,3)] ls_step_no_clash [OF s Suc.prems(2,3)]
  show ?case by auto
qed

lemma ls_step_le:
  assumes "ls_step courses rooms cur cost w = Inr (cost', w')"
  shows "cost' \<le> cost"
  using assms by (cases rule: ls_step_cases) auto

lemma ls_loop_le:
  assumes "ls_loop courses rooms cur n cost w = Inr (cost', w')"
  shows "cost' \<le> cost"
  using assms
proof (induction n arbitrary: cost w)
  case 0
  then show ?case by simp
next
  case (Suc n)
  then obtain c1 w1 where s: "ls_step courses rooms cur cost w = Inr (c1, w1)"
    and l: "ls_loop courses rooms cur n c1 w1 = Inr (cost', w')"
    by (auto simp: bind_Inr_iff)
  show ?case
    using ls_step_le [OF s] Suc.IH [OF l] by simp
qed

lemma room_travel_cost_small:
  assumes "length (students c) \<le> 30"
  shows "room_travel_cost c r w =
    (if students c = [] then Inl ZeroDivisionError else Inr (exact_cost c (room_heap w r), w))"
  using assms by (simp add: room_travel_cost_def travel_cost_small)

lemma sum_list_change1:
  fixes g g' :: "'a \<Rightarrow> real"
  assumes "distinct xs" and "a \<in> set xs" and "\<And>x. x \<in> set xs \<Longrightarrow> x \<noteq> a \<Longrightarrow> g' x = g x"
  shows "(\<Sum>x\<leftarrow>xs. g' x) = (\<Sum>x\<leftarrow>xs. g x) + (g' a - g a)"
  using assms
proof (induction xs)
  case Nil
  then show ?case by simp
next
  case (Cons x xs)
  show ?case
  proof (cases "x = a")
    case True
    then have "a \<notin> set xs" using Cons.prems(1) by simp
    then have "map g' xs = map g xs"
      using Cons.prems(3) by (intro map_cong) auto
    then have "sum_list (map g' xs) = sum_list (map g xs)"
      by (rule arg_cong)
    then show ?thesis using True by simp
  next
    case False
    then have "(\<Sum>x\<leftarrow>xs. g' x) = (\<Sum>x\<leftarrow>xs. g x) + (g' a - g a)"
      using Cons by auto
    moreover have "g' x = g x"
      using False Cons.prems(3) by simp
    ultimately show ?thesis by simp
  qed
qed

lemma sum_list_change2:
  fixes g g' :: "'a \<Rightarrow> real"
  assumes "distinct xs" and "a \<in> set xs" and "b \<in> set xs" and "a \<noteq> b"
    and "\<And>x. x \<in> set xs \<Longrightarrow> x \<noteq> a \<Longrightarrow> x \<noteq> b \<Longrightarrow> g' x = g x"
  shows "(\<Sum>x\<leftarrow>xs. g' x) = (\<Sum>x\<leftarrow>xs. g x) + (g' a - g a) + (g' b - g b)"
proof -
  let ?h = "g(a := g' a)"
  have "(\<Sum>x\<leftarrow>xs. ?h x) = (\<Sum>x\<leftarrow>xs. g x) + (?h a - g a)"
    using assms(1,2) by (rule sum_list_change1) simp
  moreover have "(\<Sum>x\<leftarrow>xs. g' x) = (\<Sum>x\<leftarrow>xs. ?h x) + (g' b - ?h b)"
    using assms(1,3) by (rule sum_list_change1) (use assms(5) in auto)
  ultimately show ?thesis
    using assms(4) by simp
qed

lemma cost_term_exact:
  assumes "length (students c) \<le> 30"
  shows "bind (dict_get d (course_id c)) (\<lambda>k. bind (py_get rooms k) (\<lambda>r. room_travel_cost c r)) w
         = Inr (v, w1)
    \<longleftrightarrow> w1 = w \<and> located [c] rooms (dict_heap w d)
      \<and> students c \<noteq> [] \<and> v = course_cost rooms (dict_heap w d) w c"
proof (cases "dict_heap w d (course_id c)")
  case None
  then show ?thesis
    by (simp add: bind_def dict_get_def py_get_def located_def)
next
  case (Some k)
  note k = this
  show ?thesis
  proof (cases "rooms k")
    case None
    then show ?thesis
      using k by (simp add: bind_def dict_get_def py_get_def located_def)
  next
    case (Some r)
    then show ?thesis
      using k by (auto simp: bind_def dict_get_def py_get_def located_def course_cost_def
          room_travel_cost_small [OF assms])
  qed
qed

lemma located_Cons:
  "located (c # cs) rooms a \<longleftrightarrow> located [c] rooms a \<and> located cs rooms a"
  by (auto simp: located_def)

lemma cost_terms_exact:
  assumes "\<forall>c\<in>set cs. length (students c) \<le> 30"
  shows "mapM (\<lambda>course. bind (dict_get d (course_id course)) (\<lambda>k.
                 bind (py_get rooms k) (\<lambda>r. room_travel_cost course r))) cs w = Inr (vs, w')
    \<longleftrightarrow> w' = w \<and> located cs rooms (dict_heap w d) \<and> (\<forall>c\<in>set cs. students c \<noteq> [])
        \<and> vs = map (course_cost rooms (dict_heap w d) w) cs"
proof -
  define f where "f = (\<lambda>course. bind (dict_get d (course_id course)) (\<lambda>k.
                 bind (py_get rooms k) (\<lambda>r. room_travel_cost course r)))"
  define g where "g = course_cost rooms (dict_heap w d) w"
  define L where "L = (\<lambda>cs. located cs rooms (dict_heap w d))"
  have head: "f c w = Inr (v, w1) \<longleftrightarrow> w1 = w \<and> L [c] \<and> students c \<noteq> [] \<and> v = g c"
    if "length (students c) \<le> 30" for c v w1
    unfolding f_def g_def L_def by (rule cost_term_exact [OF that])
  have "mapM f cs w = Inr (vs, w')
    \<longleftrightarrow> w' = w \<and> L cs \<and> (\<forall>c\<in>set cs. students c \<noteq> []) \<and> vs = map g cs"
    using assms
  proof (induction cs arbitrary: vs)
    case Nil
    then show ?case by (auto simp: L_def located_def)
  next
    case (Cons c cs)
    have small: "length (students c) \<le> 30"
      using Cons.prems by simp
    have tail: "mapM f cs w = Inr (vs', w') \<longleftrightarrow>
        w' = w \<and> L cs \<and> (\<forall>c\<in>set cs. students c \<noteq> []) \<and> vs' = map g cs" for vs'
      using Cons.IH Cons.prems by simp
    have LC: "L (c # cs) \<longleftrightarrow> L [c] \<and> L cs"
      unfolding L_def by (rule located_Cons)
    have "mapM f (c # cs) w = Inr (vs, w') \<longleftrightarrow>
      (\<exists>v w1. f c w = Inr (v, w1) \<and> (\<exists>vs'. mapM f cs w1 = Inr (vs', w') \<and> vs = v # vs'))"
      by (auto simp: bind_Inr_iff)
    also have "\<dots> \<longleftrightarrow> (L [c] \<and> students c \<noteq> [] \<and> (\<exists>vs'. mapM f cs w = Inr (vs', w') \<and> vs = g c # vs'))"
      unfolding head [OF small] by blast
    also have "\<dots> \<longleftrightarrow> (L [c] \<and> students c \<noteq> [] \<and> w' = w \<and> L cs
        \<and> (\<forall>c\<in>set cs. students c \<noteq> []) \<and> vs = g c # map g cs)"
      unfolding tail by blast
    also have "\<dots> \<longleftrightarrow> (w' = w \<and> L (c # cs) \<and> (\<forall>c\<in>set (c # cs). students c \<noteq> [])
        \<and> vs = map g (c # cs))"
      unfolding LC by auto
    finally show ?case .
  qed
  then show ?thesis by (simp add: f_def g_def L_def)
qed

lemma cost_of_alloc_exact:
  assumes "\<forall>c\<in>set courses. length (students c) \<le> 30"
  shows "cost_of_alloc courses rooms d w = Inr (v, w')
    \<longleftrightarrow> w' = w \<and> located courses rooms (dict_heap w d) \<and> (\<forall>c\<in>set courses. students c \<noteq> [])
        \<and> v = (\<Sum>c\<leftarrow>courses. course_cost rooms (dict_heap w d) w c)"
  unfolding cost_of_alloc_def bind_Inr_iff cost_terms_exact [OF assms]
  by auto

lemma ls_step_cost:
  assumes step: "ls_step courses rooms cur cost w = Inr (cost', w')"
    and exact: "\<forall>c\<in>set courses. length (students c) \<le> 30"
    and ids: "distinct (map course_id courses)" and key: "rooms_by_id rooms w"
    and loc: "located courses rooms (dict_heap w cur)"
    and cost: "cost = (\<Sum>c\<leftarrow>courses. course_cost rooms (dict_heap w cur) w c)"
  shows "located courses rooms (dict_heap w' cur)
    \<and> cost' = (\<Sum>c\<leftarrow>courses. course_cost rooms (dict_heap w' cur) w' c)"
  using step
proof (cases rule: ls_step_cases)
  case skip
  then have "room_heap w' = room_heap w" "dict_heap w' = dict_heap w"
    by (simp_all add: same_heap_def)
  then show ?thesis
    using loc cost skip(2) by (simp add: course_cost_def)
next
  case (swap c1 c2 k1 k2 r1 r2 t12 t21 t11 t22 w1 w2 w3 w4 w5)
  let ?d = "dict_heap w cur" and ?d' = "dict_heap w' cur"
  have sel: "distinct (map course_id [c1, c2])" "set [c1, c2] \<subseteq> set courses"
    using random_sample_distinct [OF swap(1) ids] by auto
  then have mem: "c1 \<in> set courses" "c2 \<in> set courses" and ne: "course_id c1 \<noteq> course_id c2"
    by auto
  have id1: "room_id (room_heap w r1) = k1" and id2: "room_id (room_heap w r2) = k2"
    using key swap(4,6) by (auto simp: rooms_by_id_def)
  have heap: "room_heap w' = room_heap w"
    and dict: "?d' = ?d(course_id c1 \<mapsto> k2, course_id c2 \<mapsto> k1)"
    using swap(19,20) by (simp_all add: swap_entries_def id1 id2 same_heap_def)
  have small: "length (students c1) \<le> 30" "length (students c2) \<le> 30"
    using exact mem by auto
  have hp: "room_heap w1 = room_heap w" "room_heap w2 = room_heap w"
    "room_heap w3 = room_heap w" "room_heap w4 = room_heap w"
    using swap(15-18) by (simp_all add: same_heap_def)
  have t: "t12 = exact_cost c1 (room_heap w r2)" "t21 = exact_cost c2 (room_heap w r1)"
    "t11 = exact_cost c1 (room_heap w r1)" "t22 = exact_cost c2 (room_heap w r2)"
    using swap(9-12) hp
    by (auto simp: room_travel_cost_small [OF small(1)] room_travel_cost_small [OF small(2)]
        split: if_splits)
  have "located courses rooms ?d'"
    using loc swap(4,6) by (auto simp: located_def dict)
  moreover have "(\<Sum>c\<leftarrow>courses. course_cost rooms ?d' w' c)
      = (\<Sum>c\<leftarrow>courses. course_cost rooms ?d w c)
        + (course_cost rooms ?d' w' c1 - course_cost rooms ?d w c1)
        + (course_cost rooms ?d' w' c2 - course_cost rooms ?d w c2)"
  proof (rule sum_list_change2)
    show "distinct courses"
      using ids by (simp add: distinct_map)
    show "c1 \<in> set courses" "c2 \<in> set courses" by (rule mem)+
    show "c1 \<noteq> c2" using ne by auto
    fix x assume x: "x \<in> set courses" "x \<noteq> c1" "x \<noteq> c2"
    then have "course_id x \<noteq> course_id c1" "course_id x \<noteq> course_id c2"
      using distinct_ids_eq [OF ids x(1) mem(1)] distinct_ids_eq [OF ids x(1) mem(2)] by auto
    then show "course_cost rooms ?d' w' x = course_cost rooms ?d w x"
      by (simp add: course_cost_def dict heap)
  qed
  moreover have "course_cost rooms ?d' w' c1 = t12" "course_cost rooms ?d w c1 = t11"
    "course_cost rooms ?d' w' c2 = t21" "course_cost rooms ?d w c2 = t22"
    using ne swap(3-6) by (simp_all add: course_cost_def dict heap t)
  ultimately show ?thesis
    using cost swap(14) by simp
qed

lemma ls_loop_cost:
  assumes "ls_loop courses rooms cur n cost w = Inr (cost', w')"
    and "\<forall>c\<in>set courses. length (students c) \<le> 30"
    and "distinct (map course_id courses)" and "rooms_by_id rooms w"
    and "located courses rooms (dict_heap w cur)"
    and "cost = (\<Sum>c\<leftarrow>courses. course_cost rooms (dict_heap w cur) w c)"
  shows "located courses rooms (dict_heap w' cur)
    \<and> cost' = (\<Sum>c\<leftarrow>courses. course_cost rooms (dict_heap w' cur) w' c)"
  using assms
proof (induction n arbitrary: cost w)
  case 0
  then show ?case by auto
next
  case (Suc n)
  then obtain c1 w1 where s: "ls_step courses rooms cur cost w = Inr (c1, w1)"
    and l: "ls_loop courses rooms cur n c1 w1 = Inr (cost', w')"
    by (auto simp: bind_Inr_iff)
  have "room_heap w1 = room_heap w"
    using ls_step_frame [OF s] by simp
  then have k: "rooms_by_id rooms w1"
    using Suc.prems(4) by (simp add: rooms_by_id_def)
  from ls_step_cost [OF s Suc.prems(2-6)]
  show ?case
    using Suc.IH [OF l Suc.prems(2,3) k] by simp
qed

section \<open>A call of local search\<close>

lemma heap_pure_cost_of_alloc [simp]: "heap_pure (cost_of_alloc courses rooms d)"
  unfolding cost_of_alloc_def
  by (intro heap_pure_bind heap_pure_mapM) simp_all

lemma ls_run_Inr:
  assumes "ls_run a courses rooms max_iter w = Inr ((cur, c0, cN), w')"
  obtains w1 w2 where "cur = next_dict w"
    and "w1 = w\<lparr>dict_heap := (dict_heap w)(next_dict w := dict_heap w a),
                 next_dict := Suc (next_dict w)\<rparr>"
    and "cost_of_alloc courses rooms cur w1 = Inr (c0, w2)" and "same_heap w1 w2"
    and "ls_loop courses rooms cur (nat max_iter) c0 w2 = Inr (cN, w')"
proof -
  from assms obtain w1 w2 where 1: "dict_copy a w = Inr (cur, w1)"
    and 2: "cost_of_alloc courses rooms cur w1 = Inr (c0, w2)"
    and 3: "ls_loop courses rooms cur (nat max_iter) c0 w2 = Inr (cN, w')"
    by (auto simp: ls_run_def bind_Inr_iff)
  have "same_heap w1 w2"
    using heap_pure_cost_of_alloc 2 by (rule heap_pureD)
  then show ?thesis
    using that [of w1 w2] 1 2 3 by (auto simp: dict_copy_def)
qed

lemma local_search_Inr:
  "local_search a courses rooms max_iter w = Inr (cur, w')
   \<longleftrightarrow> (\<exists>c0 cN. ls_run a courses rooms max_iter w = Inr ((cur, c0, cN), w'))"
  by (auto simp: local_search_def bind_Inr_iff)

lemma ls_run_frame:
  assumes "ls_run a courses rooms max_iter w = Inr ((cur, c0, cN), w')"
  shows "cur = next_dict w" and "room_heap w' = room_heap w"
    and "d \<noteq> next_dict w \<Longrightarrow> dict_heap w' d = dict_heap w d"
    and "next_dict w' = Suc (next_dict w)"
proof -
  from assms obtain w1 w2 where r: "cur = next_dict w"
    "w1 = w\<lparr>dict_heap := (dict_heap w)(next_dict w := dict_heap w a),
                 next_dict := Suc (next_dict w)\<rparr>"
    "same_heap w1 w2" "ls_loop courses rooms cur (nat max_iter) c0 w2 = Inr (cN, w')"
    by (rule ls_run_Inr)
  have loop: "room_heap w' = room_heap w2 \<and> next_dict w' = next_dict w2
      \<and> (\<forall>d. d \<noteq> cur \<longrightarrow> dict_heap w' d = dict_heap w2 d)"
    using r(4)
  proof (induction "nat max_iter" arbitrary: c0 w2 max_iter)
    case 0
    then show ?case by simp
  next
    case (Suc n)
    from Suc(2) [symmetric] Suc(3) obtain c1 w3 where
      s: "ls_step courses rooms cur c0 w2 = Inr (c1, w3)"
      and l: "ls_loop courses rooms cur (nat (int n)) c1 w3 = Inr (cN, w')"
      by (auto simp: bind_Inr_iff)
    show ?case
      using Suc(1) [OF _ l] ls_step_frame [OF s] by auto
  qed
  show "cur = next_dict w" by (rule r(1))
  show "room_heap w' = room_heap w"
    using loop r(2,3) by (simp add: same_heap_def)
  show "next_dict w' = Suc (next_dict w)"
    using loop r(2,3) by (simp add: same_heap_def)
  show "dict_heap w' d = dict_heap w d" if "d \<noteq> next_dict w"
    using that loop r(1,2,3) by (simp add: same_heap_def)
qed

section \<open>Local search does not read the schedules\<close>

lemma schedule_blindD:
  "schedule_blind m \<Longrightarrow> m (forget_schedules w) = map_sum id (map_prod id forget_schedules) (m w)"
  by (simp add: schedule_blind_def)

lemma schedule_blind_ret [simp]: "schedule_blind (ret x)"
  by (simp add: schedule_blind_def)

lemma schedule_blind_raise [simp]: "schedule_blind (raise e)"
  by (simp add: schedule_blind_def)

lemma schedule_blind_Inr [simp]: "schedule_blind (\<lambda>w. Inr (x, w))"
  by (simp add: schedule_blind_def)

lemma schedule_blind_Inl [simp]: "schedule_blind (\<lambda>w. Inl e)"
  by (simp add: schedule_blind_def)

lemma schedule_blind_bind:
  assumes "schedule_blind m" and "\<And>x. schedule_blind (f x)"
  shows "schedule_blind (bind m f)"
  unfolding schedule_blind_def
proof
  fix w
  show "bind m f (forget_schedules w) = map_sum id (map_prod id forget_schedules) (bind m f w)"
  proof (cases "m w")
    case (Inl e)
    then show ?thesis
      using schedule_blindD [OF assms(1), of w] by (simp add: bind_def)
  next
    case (Inr p)
    then obtain x w1 where "m w = Inr (x, w1)" by (cases p) auto
    then show ?thesis
      using schedule_blindD [OF assms(1), of w] schedule_blindD [OF assms(2), of x w1]
      by (simp add: bind_def)
  qed
qed

lemma schedule_blind_mapM:
  "(\<And>x. x \<in> set xs \<Longrightarrow> schedule_blind (f x)) \<Longrightarrow> schedule_blind (mapM f xs)"
  by (induction xs) (auto intro!: schedule_blind_bind)

lemma schedule_blind_draw_glob [simp]: "schedule_blind draw_glob"
  by (simp add: schedule_blind_def draw_glob_def forget_schedules_def)

lemma schedule_blind_random_sample [simp]: "schedule_blind (random_sample xs k)"
  by (induction k arbitrary: xs) (auto intro!: schedule_blind_bind simp: Let_def)

lemma schedule_blind_travel_cost [simp]: "schedule_blind (travel_cost c room)"
  by (auto simp: travel_cost_def Let_def intro!: schedule_blind_bind)

lemma travel_cost_schedule [simp]: "travel_cost c (room\<lparr>schedule := s\<rparr>) = travel_cost c room"
  by (simp add: travel_cost_def Let_def cong: if_cong)

lemma schedule_blind_room_travel_cost [simp]: "schedule_blind (room_travel_cost c r)"
  unfolding schedule_blind_def
proof
  fix w
  have "room_travel_cost c r (forget_schedules w) = travel_cost c (room_heap w r) (forget_schedules w)"
    by (simp add: room_travel_cost_def forget_schedules_def)
  then show "room_travel_cost c r (forget_schedules w)
      = map_sum id (map_prod id forget_schedules) (room_travel_cost c r w)"
    using schedule_blindD [OF schedule_blind_travel_cost, of c "room_heap w r" w]
    by (simp add: room_travel_cost_def)
qed

lemma schedule_blind_py_get [simp]: "schedule_blind (py_get d k)"
  by (simp add: py_get_def split: option.splits)

lemma schedule_blind_dict_get [simp]: "schedule_blind (dict_get d k)"
  by (simp add: schedule_blind_def dict_get_def py_get_def forget_schedules_def split: option.splits)

lemma schedule_blind_dict_copy [simp]: "schedule_blind (dict_copy d)"
  by (simp add: schedule_blind_def dict_copy_def forget_schedules_def)

lemma schedule_blind_dict_set [simp]: "schedule_blind (dict_set d k v)"
  by (simp add: schedule_blind_def dict_set_def forget_schedules_def)

lemma schedule_blind_get_capacity [simp]: "schedule_blind (get_capacity r)"
  by (simp add: schedule_blind_def get_capacity_def forget_schedules_def)

lemma schedule_blind_get_room_id [simp]: "schedule_blind (get_room_id r)"
  by (simp add: schedule_blind_def get_room_id_def forget_schedules_def)

lemma schedule_blind_cost_of_alloc [simp]: "schedule_blind (cost_of_alloc courses rooms d)"
  unfolding cost_of_alloc_def
  by (intro schedule_blind_bind schedule_blind_mapM) simp_all

lemma schedule_blind_ls_step [simp]: "schedule_blind (ls_step courses rooms cur cost)"
  unfolding ls_step_def
  by (auto intro!: schedule_blind_bind simp: Let_def split: list.splits)

lemma schedule_blind_ls_loop [simp]: "schedule_blind (ls_loop courses rooms cur n cost)"
  by (induction n arbitrary: cost) (auto intro!: schedule_blind_bind)

lemma schedule_blind_local_search: "schedule_blind (local_search a courses rooms max_iter)"
  unfolding local_search_def ls_run_def
  by (auto intro!: schedule_blind_bind)

section \<open>The example campus\<close>

lemma ex_fields:
  "course_id ex_a = ''A''" "course_id ex_b = ''B''" "timeslot ex_a = 0" "timeslot ex_b = 0"
  "course_size ex_a = 40" "course_size ex_b = 30"
  "length (students ex_a) \<le> 30" "length (students ex_b) \<le> 30"
  "students ex_a \<noteq> []" "students ex_b \<noteq> []"
  "room_id ex_r50 = ''R50''" "room_id ex_r100 = ''R100''"
  "capacity ex_r50 = 50" "capacity ex_r100 = 100"
  "schedule ex_r50 = Map.empty" "schedule ex_r100 = Map.empty"
  by (simp_all add: ex_a_def ex_b_def ex_r50_def ex_r100_def)

lemma ex_costs:
  "exact_cost ex_a ex_r50 = 2" "exact_cost ex_a ex_r100 = 0"
  "exact_cost ex_b ex_r50 = 0" "exact_cost ex_b ex_r100 = 2"
  by (simp_all add: exact_cost_def ex_a_def ex_b_def ex_r50_def ex_r100_def ex_near_def ex_far_def
      euclidean_def)

lemma ex_rooms_by_id_simps:
  "ex_rooms_by_id ''R50'' = Some 0" "ex_rooms_by_id ''R100'' = Some 1"
  by (simp_all add: ex_rooms_by_id_def)

lemma ex_campus_simps:
  "room_heap ex_campus 0 = ex_r50" "room_heap ex_campus (Suc 0) = ex_r100"
  "dict_heap ex_campus 0 = [''A'' \<mapsto> ''R50'', ''B'' \<mapsto> ''R100'']"
  "next_dict ex_campus = 1" "glob ex_campus = (\<lambda>_. 0)"
  by (simp_all add: ex_campus_def)

lemma ex_room_costs:
  assumes "room_heap w = room_heap ex_campus"
  shows "room_travel_cost ex_a 0 w = Inr (2, w)" "room_travel_cost ex_a (Suc 0) w = Inr (0, w)"
    "room_travel_cost ex_b 0 w = Inr (0, w)" "room_travel_cost ex_b (Suc 0) w = Inr (2, w)"
  using assms by (simp_all add: room_travel_cost_small ex_fields ex_costs ex_campus_simps)

lemma ex_ls_run:
  "ls_run 0 [ex_a, ex_b] ex_rooms_by_id 1 ex_campus = Inr ((1, 4, 0), ex_swapped)"
proof -
  define w1 where "w1 = ex_campus\<lparr>dict_heap := (dict_heap ex_campus)(1 := dict_heap ex_campus 0),
                                 next_dict := 2\<rparr>"
  have w1: "room_heap w1 = room_heap ex_campus" "glob w1 = (\<lambda>_. 0)"
    "dict_heap w1 (Suc 0) = [''A'' \<mapsto> ''R50'', ''B'' \<mapsto> ''R100'']"
    by (simp_all add: w1_def ex_campus_simps)
  have copy: "dict_copy 0 ex_campus = Inr (1, w1)"
    by (simp add: dict_copy_def w1_def ex_campus_simps)
  have cost: "cost_of_alloc [ex_a, ex_b] ex_rooms_by_id 1 w1 = Inr (4, w1)"
    by (simp add: cost_of_alloc_def bind_def dict_get_def py_get_def w1 ex_fields
        ex_rooms_by_id_simps ex_room_costs)
  have sample: "random_sample [ex_a, ex_b] 2 w1 = Inr ([ex_a, ex_b], w1)"
    using random_sample_zeros [of w1 2 "[ex_a, ex_b]"] w1(2) by simp
  have sw: "w1\<lparr>dict_heap := (dict_heap w1)(Suc 0 := [''A'' \<mapsto> ''R100'', ''B'' \<mapsto> ''R50''])\<rparr>
      = ex_swapped"
    by (simp add: w1_def ex_swapped_def ex_campus_def)
  have step: "ls_step [ex_a, ex_b] ex_rooms_by_id 1 4 w1 = Inr (0, ex_swapped)"
    by (simp add: ls_step_def bind_def sample dict_get_def dict_set_def py_get_def get_capacity_def
        get_room_id_def w1 ex_fields ex_rooms_by_id_simps ex_room_costs ex_campus_simps sw)
  show ?thesis
    using copy cost step by (simp add: ls_run_def bind_def)
qed

section \<open>Cost and frame of local search\<close>

lemma ex_well_formed:
  "distinct (map course_id [ex_a, ex_b])" "rooms_by_id ex_rooms_by_id ex_campus"
  by (auto simp: ex_fields rooms_by_id_def ex_rooms_by_id_def ex_campus_def split: if_splits)

lemma ex_local_search:
  "local_search 0 [ex_a, ex_b] ex_rooms_by_id 1 ex_campus = Inr (1, ex_swapped)"
  by (simp add: local_search_def bind_def ex_ls_run)

lemma ls_run_cost:
  assumes run: "ls_run a courses rooms max_iter w = Inr ((cur, c0, cN), w')"
    and exact: "\<forall>c\<in>set courses. length (students c) \<le> 30"
    and ids: "distinct (map course_id courses)" and key: "rooms_by_id rooms w"
  shows "cost_of_alloc courses rooms a w = Inr (c0, w)"
    and "cost_of_alloc courses rooms cur w' = Inr (cN, w')" and "cN \<le> c0"
proof -
  from run obtain w1 w2 where r: "cur = next_dict w"
    "w1 = w\<lparr>dict_heap := (dict_heap w)(next_dict w := dict_heap w a),
                 next_dict := Suc (next_dict w)\<rparr>"
    "cost_of_alloc courses rooms cur w1 = Inr (c0, w2)"
    "ls_loop courses rooms cur (nat max_iter) c0 w2 = Inr (cN, w')"
    by (rule ls_run_Inr)
  have w1: "dict_heap w1 cur = dict_heap w a" "room_heap w1 = room_heap w"
    using r(1,2) by simp_all
  from r(3) have c: "w2 = w1" "located courses rooms (dict_heap w1 cur)"
    "\<forall>c\<in>set courses. students c \<noteq> []"
    "c0 = (\<Sum>c\<leftarrow>courses. course_cost rooms (dict_heap w1 cur) w1 c)"
    unfolding cost_of_alloc_exact [OF exact] by simp_all
  have same: "course_cost rooms (dict_heap w1 cur) w1 = course_cost rooms (dict_heap w a) w"
    by (simp add: fun_eq_iff course_cost_def w1)
  show "cost_of_alloc courses rooms a w = Inr (c0, w)"
    unfolding cost_of_alloc_exact [OF exact] using c w1(1) same by simp
  have key1: "rooms_by_id rooms w1"
    using key w1(2) by (simp add: rooms_by_id_def)
  from ls_loop_cost [OF r(4) [unfolded c(1)] exact ids key1 c(2,4)]
  show "cost_of_alloc courses rooms cur w' = Inr (cN, w')"
    unfolding cost_of_alloc_exact [OF exact] using c(3) by simp
  show "cN \<le> c0"
    using r(4) by (rule ls_loop_le)
qed

text \<open>
  C7. A call of local search that returns gives back a dictionary created by the call, at
  an address that held no dictionary before; the input dictionary and every other
  dictionary that existed hold what they held, and every Room object is as it was, schedule
  included. No schedule is read either: on a world whose schedules have all been emptied the
  call raises the same error or returns the same address, and ends in the same world with
  its schedules emptied.
\<close>

theorem local_search_frame:
  "(local_search allocation courses rooms max_iter w = Inr (result, w')
      \<and> allocation < next_dict w
      \<longrightarrow> result = next_dict w \<and> result \<noteq> allocation
          \<and> dict_heap w' allocation = dict_heap w allocation
          \<and> (\<forall>d<next_dict w. dict_heap w' d = dict_heap w d)
          \<and> room_heap w' = room_heap w)
   \<and> local_search allocation courses rooms max_iter (forget_schedules w)
       = map_sum id (map_prod id forget_schedules) (local_search allocation courses rooms max_iter w)"
proof (intro conjI impI)
  assume a: "local_search allocation courses rooms max_iter w = Inr (result, w') \<and>
    allocation < next_dict w"
  then obtain c0 cN where
    run: "ls_run allocation courses rooms max_iter w = Inr ((result, c0, cN), w')"
    by (auto simp: local_search_Inr)
  show "result = next_dict w"
    by (rule ls_run_frame(1) [OF run])
  then show "result \<noteq> allocation"
    using a by simp
  show "dict_heap w' allocation = dict_heap w allocation"
    using a by (intro ls_run_frame(3) [OF run]) simp
  show "\<forall>d<next_dict w. dict_heap w' d = dict_heap w d"
    using ls_run_frame(3) [OF run] by simp
  show "room_heap w' = room_heap w"
    by (rule ls_run_frame(2) [OF run])
next
  show "local_search allocation courses rooms max_iter (forget_schedules w)
       = map_sum id (map_prod id forget_schedules) (local_search allocation courses rooms max_iter w)"
    using schedule_blind_local_search by (rule schedule_blindD)
qed

theorem local_search_frame_witness:
  "local_search 0 [ex_a, ex_b] ex_rooms_by_id 1 ex_campus = Inr (1, ex_swapped)
   \<and> 0 < next_dict ex_campus
   \<and> dict_heap ex_swapped 0 = [''A'' \<mapsto> ''R50'', ''B'' \<mapsto> ''R100'']
   \<and> dict_heap ex_swapped 1 = [''A'' \<mapsto> ''R100'', ''B'' \<mapsto> ''R50'']
   \<and> dict_heap ex_swapped 0 = dict_heap ex_campus 0
   \<and> room_heap ex_swapped = room_heap ex_campus"
  using local_search_frame [of 0 "[ex_a, ex_b]" ex_rooms_by_id 1 ex_campus 1 ex_swapped]
    ex_local_search
  by (simp add: ex_campus_simps ex_swapped_def)

section \<open>Chromosomes stay within the feasible rooms\<close>

lemma mapM_list_all2:
  assumes "mapM f xs w = Inr (ys, w')"
    and "\<And>x y wa wb. x \<in> set xs \<Longrightarrow> f x wa = Inr (y, wb) \<Longrightarrow> P y x"
  shows "list_all2 P ys xs"
  using assms
proof (induction xs arbitrary: ys w)
  case Nil
  then show ?case by simp
next
  case (Cons x xs)
  from Cons.prems(1) obtain y w1 ys' where "f x w = Inr (y, w1)" "mapM f xs w1 = Inr (ys', w')"
    "ys = y # ys'"
    by (auto simp: bind_Inr_iff)
  then show ?case
    using Cons.IH [of w1 ys'] Cons.prems(2) by auto
qed

lemma mapM_all:
  assumes "mapM f xs w = Inr (ys, w')"
    and "\<And>x y wa wb. x \<in> set xs \<Longrightarrow> f x wa = Inr (y, wb) \<Longrightarrow> Q y"
  shows "\<forall>y\<in>set ys. Q y"
proof -
  have "list_all2 (\<lambda>y x. Q y) ys xs"
    using assms by (rule mapM_list_all2)
  then show ?thesis
    by (auto simp: list_all2_conv_all_nth in_set_conv_nth)
qed

lemma mapM_nth:
  assumes "mapM f xs w = Inr (ys, w')" and "j < length xs"
  shows "\<exists>wa wb. f (xs ! j) wa = Inr (ys ! j, wb)"
proof -
  have "list_all2 (\<lambda>y x. \<exists>wa wb. f x wa = Inr (y, wb)) ys xs"
    using assms(1) by (rule mapM_list_all2) blast
  then show ?thesis
    using assms(2) by (auto simp: list_all2_conv_all_nth)
qed

lemma choice_Inr: "choice xs w = Inr (x, w') \<Longrightarrow> x \<in> set xs"
  by (auto simp: choice_def bind_def draw_rng_def split: if_splits)

lemma heap_pure_choice [simp]: "heap_pure (choice xs)"
  by (auto simp: choice_def intro!: heap_pure_bind)

lemma heap_pure_rng_random [simp]: "heap_pure rng_random"
  by (auto simp: rng_random_def intro!: heap_pure_bind)

lemma heap_pure_randrange [simp]: "heap_pure (randrange a b)"
  by (auto simp: randrange_def intro!: heap_pure_bind)

lemma heap_pure_py_nth [simp]: "heap_pure (py_nth xs i)"
  by (simp add: py_nth_def)

lemma random_chrom_valid: "random_chrom fr w = Inr (chrom, w') \<Longrightarrow> valid_chrom fr chrom"
  unfolding random_chrom_def valid_chrom_def
  by (erule mapM_list_all2) (rule choice_Inr)

lemma init_population_valid:
  assumes "init_population fr pop_size w = Inr (population, w')"
  shows "\<forall>chrom\<in>set population. valid_chrom fr chrom" and "length population = nat pop_size"
proof -
  show "\<forall>chrom\<in>set population. valid_chrom fr chrom"
    using assms unfolding init_population_def
    by (rule mapM_all) (rule random_chrom_valid)
  show "length population = nat pop_size"
    using mapM_length [OF assms [unfolded init_population_def]] by simp
qed

lemma random_sample_subset: "random_sample xs k w = Inr (ys, w') \<Longrightarrow> set ys \<subseteq> set xs"
proof (induction k arbitrary: xs w ys)
  case 0
  then show ?case by simp
next
  case (Suc k)
  define i where "i = glob w 0 mod length xs"
  from Suc.prems have ne: "xs \<noteq> []"
    by (auto split: if_splits)
  then have i: "i < length xs" by (simp add: i_def)
  from Suc.prems ne obtain ys' where
    r: "random_sample (take i xs @ drop (Suc i) xs) k (w\<lparr>glob := \<lambda>n. glob w (Suc n)\<rparr>) = Inr (ys', w')"
    and ys: "ys = xs ! i # ys'"
    by (auto simp: bind_Inr_iff draw_glob_def Let_def i_def)
  have "set (take i xs @ drop (Suc i) xs) \<subseteq> set xs"
    by (auto dest: in_set_takeD in_set_dropD)
  with Suc.IH [OF r] i show ?case
    by (auto simp: ys)
qed

lemma tournament_mem:
  "tournament courses rooms population w = Inr (p, w') \<Longrightarrow> p \<in> set population"
  by (auto simp: tournament_def bind_Inr_iff dest!: min_by_mem random_sample_subset)

lemma select_parents_mem:
  assumes "select_parents courses rooms pop_size population w = Inr (parents, w')"
  shows "set parents \<subseteq> set population" and "length parents = nat pop_size"
proof -
  have "\<forall>p\<in>set parents. p \<in> set population"
    using assms unfolding select_parents_def
    by (rule mapM_all) (rule tournament_mem)
  then show "set parents \<subseteq> set population" by auto
  show "length parents = nat pop_size"
    using mapM_length [OF assms [unfolded select_parents_def]] by simp
qed

lemma valid_chrom_cross:
  assumes "valid_chrom fr p1" and "valid_chrom fr p2"
  shows "valid_chrom fr (take pos p1 @ drop pos p2)"
proof -
  have "list_all2 (\<lambda>gene options. gene \<in> set options) (take pos p1 @ drop pos p2)
          (take pos fr @ drop pos fr)"
    using assms unfolding valid_chrom_def
    by (intro list_all2_appendI list_all2_takeI list_all2_dropI)
  then show ?thesis
    by (simp add: valid_chrom_def)
qed

lemma randrange_Inr:
  assumes "randrange a b w = Inr (x, w')"
  shows "a \<le> x \<and> x < b"
proof -
  from assms have "a < b" and x: "x = a + rng w 0 mod (b - a)"
    by (auto simp: randrange_def bind_def draw_rng_def split: if_splits)
  then have "rng w 0 mod (b - a) < b - a"
    by simp
  then show ?thesis
    using x by linarith
qed

lemma crossover_Inr:
  assumes "crossover n cr parents i w = Inr (children, w')"
  shows "Suc i < length parents"
    and "children = [parents ! i, parents ! (Suc i)]
         \<or> (\<exists>pos. 1 \<le> pos \<and> pos < n
               \<and> children = [take pos (parents ! i) @ drop pos (parents ! (Suc i)),
                              take pos (parents ! (Suc i)) @ drop pos (parents ! i)])"
proof -
  from assms show i: "Suc i < length parents"
    by (auto simp: crossover_def bind_def py_nth_def split: if_splits)
  with assms obtain u w1 where u: "rng_random w = Inr (u, w1)"
    and rest: "(if u < cr then
         bind (randrange 1 n) (\<lambda>pos.
           ret [take pos (parents ! i) @ drop pos (parents ! (Suc i)),
                take pos (parents ! (Suc i)) @ drop pos (parents ! i)])
       else ret [parents ! i, parents ! (Suc i)]) w1 = Inr (children, w')"
    by (auto simp: crossover_def bind_Inr_iff py_nth_def)
  show "children = [parents ! i, parents ! (Suc i)]
         \<or> (\<exists>pos. 1 \<le> pos \<and> pos < n
               \<and> children = [take pos (parents ! i) @ drop pos (parents ! (Suc i)),
                              take pos (parents ! (Suc i)) @ drop pos (parents ! i)])"
  proof (cases "u < cr")
    case True
    with rest obtain pos w2 where "randrange 1 n w1 = Inr (pos, w2)"
      and "children = [take pos (parents ! i) @ drop pos (parents ! (Suc i)),
                       take pos (parents ! (Suc i)) @ drop pos (parents ! i)]"
      by (auto simp: bind_Inr_iff)
    then show ?thesis
      using randrange_Inr [of 1 n w1 pos w2] by blast
  next
    case False
    with rest show ?thesis by simp
  qed
qed

lemma crossover_valid:
  assumes "crossover n cr parents i w = Inr (children, w')"
    and "\<forall>p\<in>set parents. valid_chrom fr p"
  shows "length children = 2" and "\<forall>c\<in>set children. valid_chrom fr c"
proof -
  from crossover_Inr [OF assms(1)] have i: "Suc i < length parents"
    and c: "children = [parents ! i, parents ! (Suc i)]
         \<or> (\<exists>pos. children = [take pos (parents ! i) @ drop pos (parents ! (Suc i)),
                              take pos (parents ! (Suc i)) @ drop pos (parents ! i)])"
    by auto
  from i assms(2) have v: "valid_chrom fr (parents ! i)" "valid_chrom fr (parents ! (Suc i))"
    by auto
  show "length children = 2" using c by auto
  show "\<forall>c\<in>set children. valid_chrom fr c"
    using c v by (auto intro: valid_chrom_cross)
qed

lemma concat_pairs:
  assumes "\<forall>xs\<in>set xss. length xs = 2"
  shows "length (concat xss) = 2 * length xss"
    and "j < length xss \<Longrightarrow> concat xss ! (2 * j) = xss ! j ! 0 \<and> concat xss ! Suc (2 * j) = xss ! j ! 1"
  using assms
proof (induction xss arbitrary: j)
  case Nil
  {
    case 1
    then show ?case by simp
  next
    case 2
    then show ?case by simp
  }
next
  case (Cons xs xss)
  {
    case 1
    then show ?case using Cons.IH(1) by simp
  next
    case 2
    from 2(2) obtain a b where xs: "xs = [a, b]"
      by (cases xs; cases "tl xs"; cases "tl (tl xs)") auto
    show ?case
    proof (cases j)
      case 0
      then show ?thesis by (simp add: xs)
    next
      case (Suc j')
      then have "j' < length xss" using 2(1) by simp
      from Cons.IH(2) [OF this] 2(2) show ?thesis
        by (simp add: xs Suc)
    qed
  }
qed

lemma reproduce_Inr:
  assumes r: "reproduce n cr pop_size parents w = Inr (offspring, w')"
    and len: "length parents = nat pop_size"
  shows "length offspring = nat pop_size"
    and "\<forall>p\<in>set parents. valid_chrom fr p \<Longrightarrow> \<forall>c\<in>set offspring. valid_chrom fr c"
    and "Suc (2 * j) < length parents \<Longrightarrow>
      [offspring ! (2 * j), offspring ! Suc (2 * j)] = [parents ! (2 * j), parents ! Suc (2 * j)]
      \<or> (\<exists>pos. 1 \<le> pos \<and> pos < n
            \<and> [offspring ! (2 * j), offspring ! Suc (2 * j)]
                = [take pos (parents ! (2 * j)) @ drop pos (parents ! Suc (2 * j)),
                   take pos (parents ! Suc (2 * j)) @ drop pos (parents ! (2 * j))])"
proof -
  define m where "m = (nat pop_size + 1) div 2"
  define idxs where "idxs = map (\<lambda>j. 2 * j) [0..<m]"
  from r obtain children where
    ch: "mapM (crossover n cr parents) idxs w = Inr (children, w')"
    and off: "offspring = concat children"
    by (auto simp: reproduce_def bind_Inr_iff idxs_def m_def)
  have lch: "length children = m"
    using mapM_length [OF ch] by (simp add: idxs_def)
  have each: "\<exists>wa wb. crossover n cr parents (2 * i) wa = Inr (children ! i, wb)" if "i < m" for i
    using mapM_nth [OF ch, of i] that by (simp add: idxs_def)
  have two: "\<forall>xs\<in>set children. length xs = 2"
  proof
    fix xs assume "xs \<in> set children"
    then obtain i where "i < m" "xs = children ! i"
      using lch by (auto simp: in_set_conv_nth)
    with each [of i] obtain wa wb where c: "crossover n cr parents (2 * i) wa = Inr (xs, wb)"
      by auto
    from crossover_Inr(2) [OF c] show "length xs = 2"
      by auto
  qed
  have "2 * m = nat pop_size"
  proof (cases m)
    case 0
    then show ?thesis by (simp add: m_def)
  next
    case (Suc k)
    then obtain wa wb where "crossover n cr parents (2 * k) wa = Inr (children ! k, wb)"
      using each [of k] by auto
    from crossover_Inr(1) [OF this] have "Suc (2 * k) < nat pop_size"
      using len by simp
    then show ?thesis
      using Suc by (simp add: m_def)
  qed
  then show "length offspring = nat pop_size"
    using concat_pairs(1) [OF two] lch off by simp
  show "\<forall>c\<in>set offspring. valid_chrom fr c" if v: "\<forall>p\<in>set parents. valid_chrom fr p"
  proof
    fix c assume "c \<in> set offspring"
    then obtain xs where xs: "xs \<in> set children" "c \<in> set xs"
      using off by auto
    then obtain i where "i < m" "xs = children ! i"
      using lch by (auto simp: in_set_conv_nth)
    with each [of i] obtain wa wb where c: "crossover n cr parents (2 * i) wa = Inr (xs, wb)"
      by auto
    from crossover_valid(2) [OF c v] xs(2) show "valid_chrom fr c"
      by auto
  qed
  show "[offspring ! (2 * j), offspring ! Suc (2 * j)] = [parents ! (2 * j), parents ! Suc (2 * j)]
      \<or> (\<exists>pos. 1 \<le> pos \<and> pos < n
            \<and> [offspring ! (2 * j), offspring ! Suc (2 * j)]
                = [take pos (parents ! (2 * j)) @ drop pos (parents ! Suc (2 * j)),
                   take pos (parents ! Suc (2 * j)) @ drop pos (parents ! (2 * j))])"
    if "Suc (2 * j) < length parents"
  proof -
    from that len \<open>2 * m = nat pop_size\<close> have j: "j < m"
      by linarith
    then obtain wa wb where c: "crossover n cr parents (2 * j) wa = Inr (children ! j, wb)"
      using each [of j] by auto
    have "length (children ! j) = 2"
      using two j lch by simp
    then have "children ! j = [children ! j ! 0, children ! j ! 1]"
      by (cases "children ! j"; cases "tl (children ! j)"; cases "tl (tl (children ! j))") auto
    moreover have "offspring ! (2 * j) = children ! j ! 0" "offspring ! Suc (2 * j) = children ! j ! 1"
      using concat_pairs(2) [OF two, of j] j lch off by simp_all
    ultimately show ?thesis
      using crossover_Inr(2) [OF c] by metis
  qed
qed

lemma mutate_valid:
  assumes "mutate n mr fr chrom w = Inr (chrom', w')" and "valid_chrom fr chrom"
  shows "valid_chrom fr chrom'"
proof -
  from assms(1) obtain u w1 where "rng_random w = Inr (u, w1)"
    and rest: "(if u < mr then
         bind (randrange 0 n) (\<lambda>idx.
         bind (py_nth fr idx) (\<lambda>options.
         bind (choice options) (\<lambda>v.
           if idx < length chrom then ret (chrom[idx := v])
           else raise (IndexError ''list assignment index out of range''))))
       else ret chrom) w1 = Inr (chrom', w')"
    by (auto simp: mutate_def bind_Inr_iff)
  show ?thesis
  proof (cases "u < mr")
    case False
    with rest assms(2) show ?thesis by simp
  next
    case True
    with rest obtain idx v w2 w3 where "idx < length fr" "choice (fr ! idx) w2 = Inr (v, w3)"
      "idx < length chrom" "chrom' = chrom[idx := v]"
      by (auto simp: bind_Inr_iff py_nth_def split: if_splits)
    then show ?thesis
      using assms(2) choice_Inr [of "fr ! idx" w2 v w3]
      by (auto simp: valid_chrom_def list_all2_conv_all_nth nth_list_update)
  qed
qed

lemma heap_pure_fitness [simp]: "heap_pure (fitness courses rooms chrom)"
  unfolding fitness_def
  by (intro heap_pure_bind heap_pure_mapM) (auto intro!: heap_pure_bind)

lemma heap_pure_tournament [simp]: "heap_pure (tournament courses rooms population)"
  unfolding tournament_def
  by (intro heap_pure_bind heap_pure_min_by) simp_all

lemma heap_pure_select_parents [simp]: "heap_pure (select_parents courses rooms pop_size population)"
  unfolding select_parents_def by (intro heap_pure_mapM) simp

lemma heap_pure_crossover [simp]: "heap_pure (crossover n cr parents i)"
  unfolding crossover_def by (auto intro!: heap_pure_bind)

lemma heap_pure_reproduce [simp]: "heap_pure (reproduce n cr pop_size parents)"
  unfolding reproduce_def by (intro heap_pure_bind heap_pure_mapM) simp_all

lemma heap_pure_mutate [simp]: "heap_pure (mutate n mr fr chrom)"
  unfolding mutate_def by (auto intro!: heap_pure_bind)

lemma heap_pure_sort_by: "(\<And>x. x \<in> set xs \<Longrightarrow> heap_pure (f x)) \<Longrightarrow> heap_pure (sort_by f xs)"
  unfolding sort_by_def by (intro heap_pure_bind heap_pure_mapM) simp_all

lemma heap_pure_generation [simp]:
  "heap_pure (generation courses rooms fr pop_size cr mr population)"
  unfolding generation_def
  by (intro heap_pure_bind heap_pure_mapM heap_pure_sort_by) simp_all

lemma heap_pure_evolve [simp]:
  "heap_pure (evolve courses rooms fr pop_size cr mr n population)"
  by (induction n arbitrary: population) (auto intro!: heap_pure_bind)

lemma heap_pure_random_chrom [simp]: "heap_pure (random_chrom fr)"
  unfolding random_chrom_def by (intro heap_pure_mapM) simp

lemma heap_pure_init_population [simp]: "heap_pure (init_population fr pop_size)"
  unfolding init_population_def by (intro heap_pure_mapM) simp

lemma sort_by_Inr:
  assumes "sort_by f xs w = Inr (ys, w')"
  obtains ks where "mapM f xs w = Inr (ks, w')" and "length ks = length xs"
    and "ys = map snd (sort_key fst (zip ks xs))" and "set ys = set xs"
    and "length ys = length xs"
proof -
  from assms obtain ks where k: "mapM f xs w = Inr (ks, w')"
    and ys: "ys = map snd (sort_key fst (zip ks xs))"
    by (auto simp: sort_by_def bind_Inr_iff)
  have l: "length ks = length xs"
    using k by (rule mapM_length)
  have "set ys = snd ` set (zip ks xs)"
    by (simp add: ys)
  also have "\<dots> = set xs"
    using l by (metis map_snd_zip set_map)
  finally have "set ys = set xs" .
  moreover have "length ys = length xs"
    using l by (simp add: ys)
  ultimately show ?thesis
    using that k l ys by blast
qed

lemma py_take_subset: "set (py_take xs k) \<subseteq> set xs"
  by (auto simp: py_take_def dest: in_set_takeD)

lemma generation_valid:
  assumes g: "generation courses rooms fr pop_size cr mr population w = Inr (population', w')"
    and v: "\<forall>c\<in>set population. valid_chrom fr c"
  shows "\<forall>c\<in>set population'. valid_chrom fr c"
proof -
  from g obtain parents w1 offspring w2 mutated w3 merged where
    p: "select_parents courses rooms pop_size population w = Inr (parents, w1)"
    and r: "reproduce (length courses) cr pop_size parents w1 = Inr (offspring, w2)"
    and m: "mapM (mutate (length courses) mr fr) offspring w2 = Inr (mutated, w3)"
    and s: "sort_by (fitness courses rooms) (population @ mutated) w3 = Inr (merged, w')"
    and t: "population' = py_take merged pop_size"
    by (auto simp: generation_def bind_Inr_iff)
  have "\<forall>c\<in>set parents. valid_chrom fr c"
    using select_parents_mem(1) [OF p] v by auto
  then have "\<forall>c\<in>set offspring. valid_chrom fr c"
    using reproduce_Inr(2) [OF r select_parents_mem(2) [OF p]] by simp
  then have "list_all2 (\<lambda>c' c. valid_chrom fr c') mutated offspring"
    by (intro mapM_list_all2 [OF m]) (auto intro: mutate_valid)
  then have "\<forall>c\<in>set mutated. valid_chrom fr c"
    by (auto simp: list_all2_conv_all_nth in_set_conv_nth)
  moreover have "set merged = set (population @ mutated)"
    using s by (rule sort_by_Inr)
  ultimately show ?thesis
    using v t py_take_subset [of merged pop_size] by auto
qed

lemma evolve_valid:
  assumes "evolve courses rooms fr pop_size cr mr n population w = Inr (population', w')"
    and "\<forall>c\<in>set population. valid_chrom fr c"
  shows "\<forall>c\<in>set population'. valid_chrom fr c"
  using assms
proof (induction n arbitrary: population w)
  case 0
  then show ?case by simp
next
  case (Suc n)
  then obtain p1 w1 where g: "generation courses rooms fr pop_size cr mr population w = Inr (p1, w1)"
    and e: "evolve courses rooms fr pop_size cr mr n p1 w1 = Inr (population', w')"
    by (auto simp: bind_Inr_iff)
  show ?case
    using Suc.IH [OF e generation_valid [OF g Suc.prems(2)]] .
qed

section \<open>Capacity and exclusivity of the greedy allocation\<close>

lemma fits_listI:
  assumes "distinct_room_ids rooms w"
    and "\<And>c. c \<in> set courses \<Longrightarrow> \<exists>r\<in>set rooms. alloc (course_id c) = Some (room_id (room_heap w r))
            \<and> course_size c \<le> capacity (room_heap w r)"
  shows "fits_list courses rooms alloc w"
  unfolding fits_list_def
proof
  fix c assume "c \<in> set courses"
  with assms(2) obtain r where r: "r \<in> set rooms" "alloc (course_id c) = Some (room_id (room_heap w r))"
    "course_size c \<le> capacity (room_heap w r)"
    by blast
  have "r' = r" if "r' \<in> set rooms" "room_id (room_heap w r') = room_id (room_heap w r)" for r'
    using assms(1) r(1) that unfolding distinct_room_ids_def by blast
  then show "case alloc (course_id c) of None \<Rightarrow> False
        | Some k \<Rightarrow> (\<exists>r\<in>set rooms. room_id (room_heap w r) = k)
                   \<and> (\<forall>r\<in>set rooms. room_id (room_heap w r) = k
                         \<longrightarrow> course_size c \<le> capacity (room_heap w r))"
    using r by auto
qed

lemma greedy_allocate_fits:
  assumes "greedy_allocate courses rooms w = Inr (alloc, w')"
    and "distinct (map course_id courses)" and "distinct_room_ids rooms w"
  shows "fits_list courses rooms alloc w'"
proof (rule fits_listI)
  have "room_id (room_heap w' r) = room_id (room_heap w r)" for r
    using greedy_loop_frame [OF assms(1) [unfolded greedy_allocate_def]] by simp
  then show "distinct_room_ids rooms w'"
    using assms(3) by (simp add: distinct_room_ids_def)
  fix c assume "c \<in> set courses"
  then have "placed rooms alloc w' c"
    using greedy_allocate_placed [OF assms(1,2)] by simp
  then show "\<exists>r\<in>set rooms. alloc (course_id c) = Some (room_id (room_heap w' r))
            \<and> course_size c \<le> capacity (room_heap w' r)"
    by (auto simp: placed_def)
qed

lemma greedy_allocate_no_clash:
  assumes "greedy_allocate courses rooms w = Inr (alloc, w')"
    and "distinct (map course_id courses)" and "distinct_room_ids rooms w"
  shows "no_clash courses alloc"
  unfolding no_clash_def
proof (intro ballI impI)
  fix c1 c2
  assume c: "c1 \<in> set courses" "c2 \<in> set courses"
    and h: "course_id c1 \<noteq> course_id c2 \<and> timeslot c1 = timeslot c2 \<and> alloc (course_id c1) \<noteq> None"
  have ids: "room_id (room_heap w' r) = room_id (room_heap w r)" for r
    using greedy_loop_frame [OF assms(1) [unfolded greedy_allocate_def]] by simp
  from greedy_allocate_placed [OF assms(1,2)] c obtain r1 r2 where
    r1: "r1 \<in> set rooms" "alloc (course_id c1) = Some (room_id (room_heap w' r1))"
      "schedule (room_heap w' r1) (timeslot c1) = Some (course_id c1)"
    and r2: "r2 \<in> set rooms" "alloc (course_id c2) = Some (room_id (room_heap w' r2))"
      "schedule (room_heap w' r2) (timeslot c2) = Some (course_id c2)"
    unfolding placed_def by blast
  show "alloc (course_id c1) \<noteq> alloc (course_id c2)"
  proof
    assume "alloc (course_id c1) = alloc (course_id c2)"
    then have "room_id (room_heap w r1) = room_id (room_heap w r2)"
      using r1(2) r2(2) ids by simp
    then have "r1 = r2"
      using assms(3) r1(1) r2(1) unfolding distinct_room_ids_def by blast
    then show False
      using r1(3) r2(3) h by simp
  qed
qed

section \<open>No double booking\<close>

lemma local_search_inv:
  assumes ls: "local_search a courses rooms max_iter w = Inr (cur, w')"
    and ids: "distinct (map course_id courses)" and key: "rooms_by_id rooms w"
  shows "fits_dict courses rooms (dict_heap w a) w \<Longrightarrow> fits_dict courses rooms (dict_heap w' cur) w'"
    and "no_clash courses (dict_heap w a) \<Longrightarrow> no_clash courses (dict_heap w' cur)"
proof -
  from ls obtain c0 cN where run: "ls_run a courses rooms max_iter w = Inr ((cur, c0, cN), w')"
    by (auto simp: local_search_Inr)
  then obtain w1 w2 where r: "cur = next_dict w"
    "w1 = w\<lparr>dict_heap := (dict_heap w)(next_dict w := dict_heap w a),
                 next_dict := Suc (next_dict w)\<rparr>"
    "same_heap w1 w2" "ls_loop courses rooms cur (nat max_iter) c0 w2 = Inr (cN, w')"
    by (rule ls_run_Inr)
  have w2: "dict_heap w2 cur = dict_heap w a" "room_heap w2 = room_heap w"
    using r(1,2,3) by (simp_all add: same_heap_def)
  then have key2: "rooms_by_id rooms w2"
    using key by (simp add: rooms_by_id_def)
  have f: "fits_dict courses rooms (dict_heap w2 cur) w2 = fits_dict courses rooms (dict_heap w a) w"
    by (simp add: fits_dict_iff w2)
  show "fits_dict courses rooms (dict_heap w' cur) w'" if "fits_dict courses rooms (dict_heap w a) w"
    using ls_loop_inv [OF r(4) ids key2] that f by simp
  show "no_clash courses (dict_heap w' cur)" if "no_clash courses (dict_heap w a)"
    using ls_loop_inv [OF r(4) ids key2] that w2(1) by simp
qed

lemma ex_rooms_distinct: "distinct_room_ids [0, 1] ex_campus"
  by (simp add: distinct_room_ids_def ex_campus_simps ex_fields)

lemma ex_min_by:
  assumes "f x w = Inr (kx, w)" and "f y w = Inr (ky, w)"
  shows "min_by f [x, y] w = Inr (if ky < kx then y else x, w)"
  using assms by (simp add: min_by_def bind_def)

lemma ex_greedy:
  "greedy_allocate [ex_a, ex_b] [0, 1] ex_campus = Inr ([''A'' \<mapsto> ''R100'', ''B'' \<mapsto> ''R50''], ex_booked)"
proof -
  define w1 where "w1 = ex_campus\<lparr>room_heap := (room_heap ex_campus)(1 := ex_r100\<lparr>schedule := [0 \<mapsto> ''A'']\<rparr>)\<rparr>"
  have s: "sorted_courses [ex_a, ex_b] = [ex_a, ex_b]"
    by (simp add: sorted_courses_def ex_fields)
  have m1: "min_by (room_travel_cost ex_a) [0, Suc 0] ex_campus = Inr (Suc 0, ex_campus)"
    using ex_min_by [of "room_travel_cost ex_a" 0 ex_campus 2 "Suc 0" 0] ex_room_costs [of ex_campus]
    by simp
  have 1: "greedy_step [0, 1] ex_a Map.empty ex_campus = Inr ([''A'' \<mapsto> ''R100''], w1)"
    by (simp add: greedy_step_def is_available_def ex_campus_simps ex_fields bind_def m1 w1_def)
  have w1: "room_heap w1 0 = ex_r50" "room_heap w1 (Suc 0) = ex_r100\<lparr>schedule := [0 \<mapsto> ''A'']\<rparr>"
    by (simp_all add: w1_def ex_campus_simps)
  have c: "room_travel_cost ex_b 0 w1 = Inr (0, w1)"
    by (simp add: room_travel_cost_small ex_fields ex_costs w1)
  have m2: "min_by (room_travel_cost ex_b) [0] w1 = Inr (0, w1)"
    by (simp add: min_by_def bind_def c)
  have e: "w1\<lparr>room_heap := (room_heap w1)(0 := ex_r50\<lparr>schedule := [0 \<mapsto> ''B'']\<rparr>)\<rparr> = ex_booked"
    by (auto simp: w1_def ex_booked_def ex_campus_def fun_eq_iff)
  have 2: "greedy_step [0, 1] ex_b [''A'' \<mapsto> ''R100''] w1
           = Inr ([''A'' \<mapsto> ''R100'', ''B'' \<mapsto> ''R50''], ex_booked)"
    by (simp add: greedy_step_def is_available_def w1 ex_fields bind_def m2 e)
  show ?thesis
    using 1 2 by (simp add: greedy_allocate_def s bind_def)
qed

text \<open>
  C3. When the course ids are distinct and distinct Room objects have distinct ids, an
  allocation returned by the greedy allocator gives no two courses of one time-slot the same
  room. When the course ids are distinct and the room lookup maps each room id to the room
  of that id, local search returns an allocation with this property whenever its input
  allocation has it.
\<close>

theorem no_double_booking:
  "(distinct (map course_id courses) \<and> distinct_room_ids room_list w
      \<and> greedy_allocate courses room_list w = Inr (alloc, w')
      \<longrightarrow> no_clash courses alloc)
   \<and> (distinct (map course_id courses) \<and> rooms_by_id rooms w
        \<and> no_clash courses (dict_heap w allocation)
        \<and> local_search allocation courses rooms max_iter w = Inr (result, w'')
      \<longrightarrow> no_clash courses (dict_heap w'' result))"
  using greedy_allocate_no_clash [of courses room_list w alloc w']
    local_search_inv(2) [of allocation courses rooms max_iter w result w'']
  by blast

theorem no_double_booking_witness:
  "distinct (map course_id [ex_a, ex_b]) \<and> distinct_room_ids [0, 1] ex_campus
   \<and> greedy_allocate [ex_a, ex_b] [0, 1] ex_campus
       = Inr ([''A'' \<mapsto> ''R100'', ''B'' \<mapsto> ''R50''], ex_booked)
   \<and> no_clash [ex_a, ex_b] [''A'' \<mapsto> ''R100'', ''B'' \<mapsto> ''R50'']
   \<and> rooms_by_id ex_rooms_by_id ex_campus
   \<and> no_clash [ex_a, ex_b] (dict_heap ex_campus 0)
   \<and> local_search 0 [ex_a, ex_b] ex_rooms_by_id 1 ex_campus = Inr (1, ex_swapped)
   \<and> no_clash [ex_a, ex_b] (dict_heap ex_swapped 1)"
proof -
  have "no_clash [ex_a, ex_b] (dict_heap ex_campus 0)"
    by (simp add: no_clash_def ex_campus_simps ex_fields)
  then show ?thesis
    using no_double_booking [of "[ex_a, ex_b]" "[0, 1]" ex_campus "[''A'' \<mapsto> ''R100'', ''B'' \<mapsto> ''R50'']"
        ex_booked ex_rooms_by_id 0 1 1 ex_swapped]
      ex_well_formed ex_rooms_distinct ex_greedy ex_local_search
    by simp
qed

section \<open>The mapping of the best chromosome\<close>

lemma fold_upd_other:
  "k \<notin> fst ` set items \<Longrightarrow> fold (\<lambda>(k, v) m. m(k \<mapsto> v)) items m k = m k"
  by (induction items arbitrary: m) auto

lemma fold_upd_distinct:
  "distinct (map fst items) \<Longrightarrow> (k, v) \<in> set items
   \<Longrightarrow> fold (\<lambda>(k, v) m. m(k \<mapsto> v)) items m k = Some v"
proof (induction items arbitrary: m)
  case Nil
  then show ?case by simp
next
  case (Cons x items)
  show ?case
  proof (cases "(k, v) \<in> set items")
    case True
    then show ?thesis using Cons by auto
  next
    case False
    then have x: "x = (k, v)"
      using Cons.prems by auto
    then have "fst x \<notin> fst ` set items"
      using Cons.prems(1) by simp
    then have "k \<notin> fst ` set items"
      using x by simp
    then have "fold (\<lambda>(k, v) m. m(k \<mapsto> v)) items (m(k \<mapsto> v)) k = (m(k \<mapsto> v)) k"
      by (rule fold_upd_other)
    then show ?thesis
      by (simp only: x fold_simps prod.case fun_upd_same)
  qed
qed

lemma feasible_rooms_nth:
  assumes "i < length courses" and "g \<in> set (feasible_rooms courses rooms w ! i)"
  shows "g < length rooms" and "course_size (courses ! i) \<le> capacity (room_heap w (rooms ! g))"
  using assms by (auto simp: feasible_rooms_def)

lemma length_feasible_rooms [simp]: "length (feasible_rooms courses rooms w) = length courses"
  by (simp add: feasible_rooms_def)

lemma mapM_list_all2_heap:
  assumes "mapM f xs w = Inr (ys, w')" and "same_heap w0 w"
    and "\<And>x. x \<in> set xs \<Longrightarrow> heap_pure (f x)"
    and "\<And>x y wa wb. x \<in> set xs \<Longrightarrow> same_heap w0 wa \<Longrightarrow> f x wa = Inr (y, wb) \<Longrightarrow> P y x"
  shows "list_all2 P ys xs"
  using assms
proof (induction xs arbitrary: ys w)
  case Nil
  then show ?case by simp
next
  case (Cons x xs)
  from Cons.prems(1) obtain y w1 ys' where 1: "f x w = Inr (y, w1)"
    and 2: "mapM f xs w1 = Inr (ys', w')" and 3: "ys = y # ys'"
    by (auto simp: bind_Inr_iff)
  have "same_heap w w1"
    using Cons.prems(3) [of x] 1 by (auto dest: heap_pureD)
  then have "same_heap w0 w1"
    using Cons.prems(2) by (rule same_heap_trans [rotated])
  then have "list_all2 P ys' xs"
    using Cons.IH [OF 2] Cons.prems(3,4) by auto
  moreover have "P y x"
    using Cons.prems(4) [of x w y w1] Cons.prems(2) 1 by simp
  ultimately show ?case by (simp add: 3)
qed

lemma to_mapping_Inr:
  assumes t: "to_mapping courses rooms best w = Inr (alloc, w')"
    and ids: "distinct (map course_id courses)"
    and len: "length best = length courses" and i: "i < length courses"
  shows "best ! i < length rooms"
    and "alloc (course_id (courses ! i)) = Some (room_id (room_heap w (rooms ! (best ! i))))"
proof -
  define f where "f = (\<lambda>(course :: Course, idx). bind (py_nth rooms idx) (\<lambda>r. bind (get_room_id r)
              (\<lambda>rid. ret (course_id course, rid))))"
  define P where "P = (\<lambda>item (x :: Course \<times> nat). snd x < length rooms
      \<and> item = (course_id (fst x), room_id (room_heap w (rooms ! snd x))))"
  from t obtain items where m: "mapM f (zip courses best) w = Inr (items, w')"
    and a: "alloc = fold (\<lambda>(k, v) m. m(k \<mapsto> v)) items Map.empty"
    by (auto simp: to_mapping_def bind_Inr_iff f_def)
  have hp: "heap_pure (f x)" for x
    by (cases x) (auto simp: f_def intro!: heap_pure_bind)
  have "list_all2 P items (zip courses best)"
  proof (rule mapM_list_all2_heap [OF m same_heap_refl hp])
    fix x y wa wb
    assume "same_heap w wa" "f x wa = Inr (y, wb)"
    then show "P y x"
      by (cases x)
        (auto simp: f_def P_def bind_Inr_iff py_nth_def get_room_id_def same_heap_def
          split: if_splits)
  qed
  then have items: "length items = length courses"
    "\<And>j. j < length courses \<Longrightarrow> best ! j < length rooms
        \<and> items ! j = (course_id (courses ! j), room_id (room_heap w (rooms ! (best ! j))))"
    using len by (auto simp: list_all2_conv_all_nth P_def)
  show "best ! i < length rooms"
    using items(2) [OF i] by simp
  have "map fst items = map course_id courses"
    using items by (auto simp: list_eq_iff_nth_eq)
  then have "distinct (map fst items)"
    using ids by simp
  moreover have "(course_id (courses ! i), room_id (room_heap w (rooms ! (best ! i)))) \<in> set items"
    using items i by (metis nth_mem)
  ultimately show "alloc (course_id (courses ! i)) = Some (room_id (room_heap w (rooms ! (best ! i))))"
    unfolding a by (rule fold_upd_distinct)
qed

lemma ga_run_Inr:
  assumes "ga_run courses rooms pop_size generations cr mr seed w = Inr ((initial, final), w')"
  obtains w1 where
    "init_population (feasible_rooms courses rooms w) pop_size (w\<lparr>rng := seed\<rparr>) = Inr (initial, w1)"
    and "evolve courses rooms (feasible_rooms courses rooms w) pop_size cr mr (nat generations)
           initial w1 = Inr (final, w')"
    and "same_heap w w1" and "same_heap w w'"
proof -
  have fr: "feasible_rooms courses rooms (w\<lparr>rng := seed\<rparr>) = feasible_rooms courses rooms w"
    by (simp add: feasible_rooms_def)
  from assms obtain w1 where
    1: "init_population (feasible_rooms courses rooms w) pop_size (w\<lparr>rng := seed\<rparr>) = Inr (initial, w1)"
    and 2: "evolve courses rooms (feasible_rooms courses rooms w) pop_size cr mr (nat generations)
           initial w1 = Inr (final, w')"
    by (auto simp: ga_run_def Let_def fr bind_Inr_iff)
  have "same_heap (w\<lparr>rng := seed\<rparr>) w1"
    using heap_pure_init_population 1 by (rule heap_pureD)
  then have a: "same_heap w w1"
    by (simp add: same_heap_def)
  moreover have "same_heap w1 w'"
    using heap_pure_evolve 2 by (rule heap_pureD)
  ultimately have "same_heap w w'"
    by (rule same_heap_trans)
  then show ?thesis
    using that 1 2 a by blast
qed

lemma genetic_allocate_Inr:
  assumes "genetic_allocate courses rooms pop_size generations cr mr seed w = Inr (alloc, w')"
  obtains initial final w1 best w2 where
    "ga_run courses rooms pop_size generations cr mr seed w = Inr ((initial, final), w1)"
    and "min_by (fitness courses rooms) final w1 = Inr (best, w2)"
    and "to_mapping courses rooms best w2 = Inr (alloc, w')"
  using assms by (auto simp: genetic_allocate_def bind_Inr_iff)

lemma ga_run_valid:
  assumes "ga_run courses rooms pop_size generations cr mr seed w = Inr ((initial, final), w')"
  shows "\<forall>c\<in>set initial. valid_chrom (feasible_rooms courses rooms w) c"
    and "\<forall>c\<in>set final. valid_chrom (feasible_rooms courses rooms w) c"
    and "length initial = nat pop_size"
proof -
  from assms obtain w1 where
    1: "init_population (feasible_rooms courses rooms w) pop_size (w\<lparr>rng := seed\<rparr>) = Inr (initial, w1)"
    and 2: "evolve courses rooms (feasible_rooms courses rooms w) pop_size cr mr (nat generations)
           initial w1 = Inr (final, w')"
    by (rule ga_run_Inr)
  show "\<forall>c\<in>set initial. valid_chrom (feasible_rooms courses rooms w) c"
    and "length initial = nat pop_size"
    using init_population_valid [OF 1] by simp_all
  then show "\<forall>c\<in>set final. valid_chrom (feasible_rooms courses rooms w) c"
    using evolve_valid [OF 2] by simp
qed

lemma genetic_allocate_fits:
  assumes g: "genetic_allocate courses rooms pop_size generations cr mr seed w = Inr (alloc, w')"
    and ids: "distinct (map course_id courses)" and rids: "distinct_room_ids rooms w"
  shows "fits_list courses rooms alloc w'"
proof -
  from g obtain initial final w1 best w2 where
    run: "ga_run courses rooms pop_size generations cr mr seed w = Inr ((initial, final), w1)"
    and best: "min_by (fitness courses rooms) final w1 = Inr (best, w2)"
    and tm: "to_mapping courses rooms best w2 = Inr (alloc, w')"
    by (rule genetic_allocate_Inr)
  have h1: "same_heap w w1"
    using run by (rule ga_run_Inr)
  have "heap_pure (min_by (fitness courses rooms) final)"
    by (rule heap_pure_min_by) simp
  then have "same_heap w1 w2"
    using best by (rule heap_pureD)
  with h1 have h2: "same_heap w w2"
    by (rule same_heap_trans)
  have "heap_pure (to_mapping courses rooms best)"
    unfolding to_mapping_def
    by (intro heap_pure_bind heap_pure_mapM) (auto intro!: heap_pure_bind)
  then have "same_heap w2 w'"
    using tm by (rule heap_pureD)
  with h2 have h3: "same_heap w w'"
    by (rule same_heap_trans)
  have heap: "room_heap w2 = room_heap w" "room_heap w' = room_heap w"
    using h2 h3 by (simp_all add: same_heap_def)
  have "best \<in> set final"
    using best by (rule min_by_mem)
  then have v: "valid_chrom (feasible_rooms courses rooms w) best"
    using ga_run_valid(2) [OF run] by simp
  then have len: "length best = length courses"
    by (auto simp: valid_chrom_def dest: list_all2_lengthD)
  show ?thesis
  proof (rule fits_listI)
    show "distinct_room_ids rooms w'"
      using rids by (simp add: distinct_room_ids_def heap)
    fix c assume "c \<in> set courses"
    then obtain i where i: "i < length courses" "c = courses ! i"
      by (auto simp: in_set_conv_nth)
    have "best ! i \<in> set (feasible_rooms courses rooms w ! i)"
      using v i(1) by (auto simp: valid_chrom_def list_all2_conv_all_nth)
    from feasible_rooms_nth [OF i(1) this] to_mapping_Inr(2) [OF tm ids len i(1)]
    show "\<exists>r\<in>set rooms. alloc (course_id c) = Some (room_id (room_heap w' r))
            \<and> course_size c \<le> capacity (room_heap w' r)"
      by (intro bexI [of _ "rooms ! (best ! i)"]) (simp_all add: heap i(2))
  qed
qed

section \<open>The genetic optimizer on the example campus\<close>

lemma ex_draws:
  "draw_rng ex_campus = Inr (0, ex_campus)" "draw_glob ex_campus = Inr (0, ex_campus)"
  by (simp_all add: draw_rng_def draw_glob_def ex_campus_def)

lemma ex_feasible: "feasible_rooms [ex_a, ex_b] [0, 1] ex_campus = [[0, 1], [0, 1]]"
  by (simp add: feasible_rooms_def ex_campus_simps ex_fields upt_rec)

lemma ex_rng:
  "choice [0, Suc 0] ex_campus = Inr (0, ex_campus)"
  "rng_random ex_campus = Inr (0, ex_campus)"
  "randrange 1 (Suc (Suc 0)) ex_campus = Inr (1, ex_campus)"
  "randrange 0 (Suc (Suc 0)) ex_campus = Inr (0, ex_campus)"
  by (simp_all add: choice_def rng_random_def randrange_def bind_def ex_draws)

lemma ex_fitness: "fitness [ex_a, ex_b] [0, 1] [0, 0] ex_campus = Inr (2, ex_campus)"
  by (simp add: fitness_def bind_def py_nth_def enumerate_eq_zip upt_rec ex_room_costs)

lemma ex_init:
  "init_population [[0, 1], [0, 1]] 2 ex_campus = Inr ([[0, 0], [0, 0]], ex_campus)"
  using ex_rng by (simp add: init_population_def random_chrom_def bind_def upt_rec)

lemma ex_tournament:
  "tournament [ex_a, ex_b] [0, 1] [[0, 0], [0, 0]] ex_campus = Inr ([0, 0], ex_campus)"
proof -
  have "random_sample [[0, 0], [0, 0::nat]] 2 ex_campus = Inr ([[0, 0], [0, 0]], ex_campus)"
    using random_sample_zeros [of ex_campus 2 "[[0, 0], [0, 0::nat]]"]
    by (simp add: ex_campus_simps)
  then show ?thesis
    using ex_min_by [of "fitness [ex_a, ex_b] [0, 1]" "[0, 0]" ex_campus 2 "[0, 0]" 2] ex_fitness
    by (simp add: tournament_def bind_def)
qed

lemma ex_generation:
  "generation [ex_a, ex_b] [0, 1] [[0, 1], [0, 1]] 2 (4 / 5) (1 / 5) [[0, 0], [0, 0]] ex_campus
   = Inr ([[0, 0], [0, 0]], ex_campus)"
proof -
  have p: "select_parents [ex_a, ex_b] [0, 1] 2 [[0, 0], [0, 0]] ex_campus
           = Inr ([[0, 0], [0, 0]], ex_campus)"
    using ex_tournament by (simp add: select_parents_def bind_def upt_rec)
  have c: "crossover (length [ex_a, ex_b]) (4 / 5) [[0, 0], [0, 0]] 0 ex_campus = Inr ([[0, 0], [0, 0]], ex_campus)"
    using ex_rng by (simp add: crossover_def bind_def py_nth_def)
  have r: "reproduce (length [ex_a, ex_b]) (4 / 5) 2 [[0, 0], [0, 0]] ex_campus = Inr ([[0, 0], [0, 0]], ex_campus)"
    using c by (simp add: reproduce_def bind_def upt_rec)
  have m: "mutate (length [ex_a, ex_b]) (1 / 5) [[0, 1], [0, 1]] [0, 0] ex_campus = Inr ([0, 0], ex_campus)"
    using ex_rng by (simp add: mutate_def bind_def py_nth_def)
  have s: "sort_by (fitness [ex_a, ex_b] [0, 1]) [[0, 0], [0, 0], [0, 0], [0, 0]] ex_campus
           = Inr ([[0, 0], [0, 0], [0, 0], [0, 0]], ex_campus)"
    using ex_fitness by (simp add: sort_by_def bind_def)
  show ?thesis
    using p r m s by (simp add: generation_def bind_def py_take_def)
qed

lemma ex_ga_run:
  "ga_run [ex_a, ex_b] [0, 1] 2 1 (4 / 5) (1 / 5) (\<lambda>_. 0) ex_campus
   = Inr (([[0, 0], [0, 0]], [[0, 0], [0, 0]]), ex_campus)"
proof -
  have "ex_campus\<lparr>rng := \<lambda>_. 0\<rparr> = ex_campus"
    by (simp add: ex_campus_def)
  then show ?thesis
    using ex_feasible ex_init ex_generation
    by (simp add: ga_run_def Let_def bind_def)
qed

lemma ex_genetic:
  "genetic_allocate [ex_a, ex_b] [0, 1] 2 1 (4 / 5) (1 / 5) (\<lambda>_. 0) ex_campus
   = Inr ([''A'' \<mapsto> ''R50'', ''B'' \<mapsto> ''R50''], ex_campus)"
proof -
  have m: "min_by (fitness [ex_a, ex_b] [0, 1]) [[0, 0], [0, 0]] ex_campus = Inr ([0, 0], ex_campus)"
    using ex_min_by [of "fitness [ex_a, ex_b] [0, 1]" "[0, 0]" ex_campus 2 "[0, 0]" 2] ex_fitness
    by simp
  have t: "to_mapping [ex_a, ex_b] [0, 1] [0, 0] ex_campus
           = Inr ([''A'' \<mapsto> ''R50'', ''B'' \<mapsto> ''R50''], ex_campus)"
    by (simp add: to_mapping_def bind_def py_nth_def get_room_id_def ex_campus_simps ex_fields)
  show ?thesis
    using ex_ga_run m t by (simp add: genetic_allocate_def bind_def)
qed

section \<open>Capacity of the assigned rooms; reproduction\<close>

text \<open>
  C2. For each of the three allocators, when the course ids are distinct and the rooms are
  identified by their ids (distinct Room objects have distinct ids; the room lookup of local
  search maps each room id to the room of that id), a call that returns gives every course
  a room whose capacity is at least the course's size; for local search, provided the input
  allocation does.
\<close>

theorem assigned_room_fits:
  "(distinct (map course_id courses) \<and> distinct_room_ids room_list w
      \<and> greedy_allocate courses room_list w = Inr (greedy_alloc, w1)
      \<longrightarrow> fits_list courses room_list greedy_alloc w1)
   \<and> (distinct (map course_id courses) \<and> rooms_by_id rooms w
        \<and> fits_dict courses rooms (dict_heap w allocation) w
        \<and> local_search allocation courses rooms max_iter w = Inr (result, w2)
      \<longrightarrow> fits_dict courses rooms (dict_heap w2 result) w2)
   \<and> (distinct (map course_id courses) \<and> distinct_room_ids room_list w
        \<and> genetic_allocate courses room_list pop_size generations crossover_rate mutation_rate
              seed42 w = Inr (genetic_alloc, w3)
      \<longrightarrow> fits_list courses room_list genetic_alloc w3)"
  using greedy_allocate_fits [of courses room_list w greedy_alloc w1]
    local_search_inv(1) [of allocation courses rooms max_iter w result w2]
    genetic_allocate_fits [of courses room_list pop_size generations crossover_rate mutation_rate
      seed42 w genetic_alloc w3]
  by blast

theorem assigned_room_fits_witness:
  "distinct (map course_id [ex_a, ex_b]) \<and> distinct_room_ids [0, 1] ex_campus
   \<and> rooms_by_id ex_rooms_by_id ex_campus
   \<and> fits_dict [ex_a, ex_b] ex_rooms_by_id (dict_heap ex_campus 0) ex_campus
   \<and> greedy_allocate [ex_a, ex_b] [0, 1] ex_campus
       = Inr ([''A'' \<mapsto> ''R100'', ''B'' \<mapsto> ''R50''], ex_booked)
   \<and> fits_list [ex_a, ex_b] [0, 1] [''A'' \<mapsto> ''R100'', ''B'' \<mapsto> ''R50''] ex_booked
   \<and> local_search 0 [ex_a, ex_b] ex_rooms_by_id 1 ex_campus = Inr (1, ex_swapped)
   \<and> fits_dict [ex_a, ex_b] ex_rooms_by_id (dict_heap ex_swapped 1) ex_swapped
   \<and> genetic_allocate [ex_a, ex_b] [0, 1] 2 1 (4 / 5) (1 / 5) (\<lambda>_. 0) ex_campus
       = Inr ([''A'' \<mapsto> ''R50'', ''B'' \<mapsto> ''R50''], ex_campus)
   \<and> fits_list [ex_a, ex_b] [0, 1] [''A'' \<mapsto> ''R50'', ''B'' \<mapsto> ''R50''] ex_campus"
proof -
  have "fits_dict [ex_a, ex_b] ex_rooms_by_id (dict_heap ex_campus 0) ex_campus"
    by (simp add: fits_dict_def ex_campus_simps ex_fields ex_rooms_by_id_simps)
  then show ?thesis
    using assigned_room_fits [of "[ex_a, ex_b]" "[0, 1]" ex_campus
        "[''A'' \<mapsto> ''R100'', ''B'' \<mapsto> ''R50'']" ex_booked ex_rooms_by_id 0 1 1 ex_swapped
        2 1 "4 / 5" "1 / 5" "\<lambda>_. 0" "[''A'' \<mapsto> ''R50'', ''B'' \<mapsto> ''R50'']" ex_campus]
      ex_well_formed ex_rooms_distinct ex_greedy ex_local_search ex_genetic
    by simp
qed

lemma generation_Inr:
  assumes "generation courses rooms fr pop_size cr mr population w = Inr (population', w')"
  obtains parents w1 offspring w2 where
    "select_parents courses rooms pop_size population w = Inr (parents, w1)"
    and "reproduce (length courses) cr pop_size parents w1 = Inr (offspring, w2)"
  using assms by (auto simp: generation_def bind_Inr_iff)

text \<open>
  C9. In every generation that completes, selection yields \<open>pop_size\<close> parents and
  reproduction yields exactly as many offspring as there are parents: the offspring at
  positions \<open>2j\<close> and \<open>2j + 1\<close> are the two parents at these positions, either
  unchanged or with their tails exchanged at one cut position from 1 to the number of
  courses minus 1.
\<close>

theorem reproduction_keeps_count:
  "generation courses rooms fr pop_size crossover_rate mutation_rate population w
     = Inr (population', w')
   \<longrightarrow> (\<exists>parents offspring w1 w2.
          select_parents courses rooms pop_size population w = Inr (parents, w1)
          \<and> reproduce (length courses) crossover_rate pop_size parents w1 = Inr (offspring, w2)
          \<and> length parents = nat pop_size \<and> length offspring = length parents
          \<and> (\<forall>j. Suc (2 * j) < length parents \<longrightarrow>
                [offspring ! (2 * j), offspring ! Suc (2 * j)]
                  = [parents ! (2 * j), parents ! Suc (2 * j)]
                \<or> (\<exists>pos. 1 \<le> pos \<and> pos < length courses
                      \<and> [offspring ! (2 * j), offspring ! Suc (2 * j)]
                          = [take pos (parents ! (2 * j)) @ drop pos (parents ! Suc (2 * j)),
                             take pos (parents ! Suc (2 * j)) @ drop pos (parents ! (2 * j))])))"
proof
  assume "generation courses rooms fr pop_size crossover_rate mutation_rate population w
     = Inr (population', w')"
  then obtain parents w1 offspring w2 where
    p: "select_parents courses rooms pop_size population w = Inr (parents, w1)"
    and r: "reproduce (length courses) crossover_rate pop_size parents w1 = Inr (offspring, w2)"
    by (rule generation_Inr)
  have len: "length parents = nat pop_size"
    using p by (rule select_parents_mem(2))
  show "\<exists>parents offspring w1 w2.
          select_parents courses rooms pop_size population w = Inr (parents, w1)
          \<and> reproduce (length courses) crossover_rate pop_size parents w1 = Inr (offspring, w2)
          \<and> length parents = nat pop_size \<and> length offspring = length parents
          \<and> (\<forall>j. Suc (2 * j) < length parents \<longrightarrow>
                [offspring ! (2 * j), offspring ! Suc (2 * j)]
                  = [parents ! (2 * j), parents ! Suc (2 * j)]
                \<or> (\<exists>pos. 1 \<le> pos \<and> pos < length courses
                      \<and> [offspring ! (2 * j), offspring ! Suc (2 * j)]
                          = [take pos (parents ! (2 * j)) @ drop pos (parents ! Suc (2 * j)),
                             take pos (parents ! Suc (2 * j)) @ drop pos (parents ! (2 * j))]))"
    using p r len reproduce_Inr(1) [OF r len] reproduce_Inr(3) [OF r len]
    by (intro exI [of _ parents] exI [of _ offspring] exI [of _ w1] exI [of _ w2]) simp
qed

theorem reproduction_keeps_count_witness:
  "generation [ex_a, ex_b] [0, 1] [[0, 1], [0, 1]] 2 (4 / 5) (1 / 5) [[0, 0], [0, 0]] ex_campus
     = Inr ([[0, 0], [0, 0]], ex_campus)
   \<and> (\<exists>parents offspring w1 w2.
          select_parents [ex_a, ex_b] [0, 1] 2 [[0, 0], [0, 0]] ex_campus = Inr (parents, w1)
          \<and> reproduce (length [ex_a, ex_b]) (4 / 5) 2 parents w1 = Inr (offspring, w2)
          \<and> length parents = 2 \<and> length offspring = 2)"
  using reproduction_keeps_count [of "[ex_a, ex_b]" "[0, 1]" "[[0, 1], [0, 1]]" 2 "4 / 5" "1 / 5"
      "[[0, 0], [0, 0]]" ex_campus "[[0, 0], [0, 0]]" ex_campus] ex_generation
  by auto

section \<open>An empty feasible-room list\<close>

lemma choice_nonempty: "xs \<noteq> [] \<Longrightarrow> \<exists>x w'. choice xs w = Inr (x, w')"
  by (simp add: choice_def bind_def draw_rng_def)

lemma random_chrom_empty:
  "[] \<in> set fr \<Longrightarrow> random_chrom fr w = Inl (IndexError ''Cannot choose from an empty sequence'')"
  unfolding random_chrom_def
proof (induction fr arbitrary: w)
  case Nil
  then show ?case by simp
next
  case (Cons options fr)
  show ?case
  proof (cases "options = []")
    case True
    then show ?thesis by (simp add: choice_def bind_def)
  next
    case False
    then obtain x w1 where "choice options w = Inr (x, w1)"
      using choice_nonempty by blast
    moreover have "[] \<in> set fr"
      using Cons.prems False by auto
    ultimately show ?thesis
      using Cons.IH [of w1] by (simp add: bind_def)
  qed
qed

lemma init_population_empty:
  assumes "[] \<in> set fr" and "1 \<le> pop_size"
  shows "init_population fr pop_size w = Inl (IndexError ''Cannot choose from an empty sequence'')"
proof -
  obtain n where "nat pop_size = Suc n"
    using assms(2) by (cases "nat pop_size") auto
  then have "[0..<nat pop_size] = 0 # [1..<Suc n]"
    by (simp add: upt_rec)
  then show ?thesis
    using random_chrom_empty [OF assms(1), of w] by (simp add: init_population_def bind_def)
qed

lemma feasible_rooms_empty:
  "[] \<in> set (feasible_rooms courses rooms w) \<longleftrightarrow>
     (\<exists>c\<in>set courses. \<forall>r\<in>set rooms. capacity (room_heap w r) < course_size c
        \<or> schedule (room_heap w r) (timeslot c) \<noteq> None)"
proof -
  define F where "F c = filter (\<lambda>i. course_size c \<le> capacity (room_heap w (rooms ! i))
                    \<and> schedule (room_heap w (rooms ! i)) (timeslot c) = None) [0..<length rooms]"
    for c :: Course
  have h: "F c = [] \<longleftrightarrow> (\<forall>r\<in>set rooms. capacity (room_heap w r) < course_size c
        \<or> schedule (room_heap w r) (timeslot c) \<noteq> None)" for c
    unfolding F_def by (auto simp: filter_empty_conv all_set_conv_all_nth not_le)
  have "feasible_rooms courses rooms w = map F courses"
    by (simp add: feasible_rooms_def F_def)
  then have "[] \<in> set (feasible_rooms courses rooms w) \<longleftrightarrow> (\<exists>c\<in>set courses. F c = [])"
    by force
  then show ?thesis
    by (simp only: h)
qed

text \<open>
  C4, as the code has it. When some course has no feasible room and the population size is
  at least 1, \<open>genetic_allocate\<close> fails while it builds the initial population, whatever the
  number of generations: the error is the \<open>IndexError\<close> that choosing from the empty list
  raises. The code has no check of its own for this case.
\<close>

theorem genetic_allocate_empty_choice:
  "1 \<le> pop_size \<and> c \<in> set courses
   \<and> (\<forall>r\<in>set rooms. capacity (room_heap w r) < course_size c
         \<or> schedule (room_heap w r) (timeslot c) \<noteq> None)
   \<longrightarrow> [] \<in> set (feasible_rooms courses rooms w)
     \<and> init_population (feasible_rooms courses rooms w) pop_size (w\<lparr>rng := seed42\<rparr>)
         = Inl (IndexError ''Cannot choose from an empty sequence'')
     \<and> genetic_allocate courses rooms pop_size generations crossover_rate mutation_rate seed42 w
         = Inl (IndexError ''Cannot choose from an empty sequence'')"
proof (intro impI)
  assume a: "1 \<le> pop_size \<and> c \<in> set courses
   \<and> (\<forall>r\<in>set rooms. capacity (room_heap w r) < course_size c
         \<or> schedule (room_heap w r) (timeslot c) \<noteq> None)"
  then have e: "[] \<in> set (feasible_rooms courses rooms w)"
    unfolding feasible_rooms_empty by blast
  have fr: "feasible_rooms courses rooms (w\<lparr>rng := seed42\<rparr>) = feasible_rooms courses rooms w"
    by (simp add: feasible_rooms_def)
  have i: "init_population (feasible_rooms courses rooms w) pop_size (w\<lparr>rng := seed42\<rparr>)
         = Inl (IndexError ''Cannot choose from an empty sequence'')"
    using e a by (intro init_population_empty) simp_all
  then have "genetic_allocate courses rooms pop_size generations crossover_rate mutation_rate seed42 w
         = Inl (IndexError ''Cannot choose from an empty sequence'')"
    by (simp add: genetic_allocate_def ga_run_def Let_def fr bind_def)
  with e i show "[] \<in> set (feasible_rooms courses rooms w)
     \<and> init_population (feasible_rooms courses rooms w) pop_size (w\<lparr>rng := seed42\<rparr>)
         = Inl (IndexError ''Cannot choose from an empty sequence'')
     \<and> genetic_allocate courses rooms pop_size generations crossover_rate mutation_rate seed42 w
         = Inl (IndexError ''Cannot choose from an empty sequence'')"
    by simp
qed

lemma ex_huge_fields:
  "course_size ex_huge = 200" "timeslot ex_huge = 0" "course_id ex_huge = ''H''"
  by (simp_all add: ex_huge_def)

theorem genetic_allocate_empty_choice_witness:
  "(1::int) \<le> 50 \<and> ex_huge \<in> set [ex_huge]
   \<and> capacity (room_heap ex_campus 0) < course_size ex_huge
   \<and> capacity (room_heap ex_campus 1) < course_size ex_huge
   \<and> genetic_allocate [ex_huge] [0, 1] 50 200 (4 / 5) (1 / 5) (\<lambda>_. 0) ex_campus
       = Inl (IndexError ''Cannot choose from an empty sequence'')"
  using genetic_allocate_empty_choice [of 50 ex_huge "[ex_huge]" "[0, 1]" ex_campus "\<lambda>_. 0" 200
      "4 / 5" "1 / 5"]
  by (simp add: ex_campus_simps ex_fields ex_huge_fields)

text \<open>
  C4, as the claim states it, fails: for a single course larger than every room the call
  ends in the error that \<open>choice\<close> raises on the empty list, not in a precondition failure
  of its own.
\<close>

theorem genetic_allocate_no_precondition_check:
  "feasible_rooms [ex_huge] [0, 1] ex_campus = [[]]
   \<and> choice (feasible_rooms [ex_huge] [0, 1] ex_campus ! 0) ex_campus
       = Inl (IndexError ''Cannot choose from an empty sequence'')
   \<and> genetic_allocate [ex_huge] [0, 1] 50 200 (4 / 5) (1 / 5) (\<lambda>_. 0) ex_campus
       = Inl (IndexError ''Cannot choose from an empty sequence'')"
proof -
  have f: "feasible_rooms [ex_huge] [0, 1] ex_campus = [[]]"
    by (simp add: feasible_rooms_def ex_campus_simps ex_fields ex_huge_fields upt_rec)
  have "ex_campus\<lparr>rng := \<lambda>_. 0\<rparr> = ex_campus"
    by (simp add: ex_campus_def)
  then have "genetic_allocate [ex_huge] [0, 1] 50 200 (4 / 5) (1 / 5) (\<lambda>_. 0) ex_campus
       = Inl (IndexError ''Cannot choose from an empty sequence'')"
    using init_population_empty [of "[[]]" 50 ex_campus] f
    by (simp add: genetic_allocate_def ga_run_def Let_def bind_def)
  then show ?thesis
    using f by (simp add: choice_def)
qed

section \<open>Exact fitness\<close>

lemma mapM_const_world:
  assumes "mapM f xs w = Inr (ys, w')"
    and "\<And>x y wb. x \<in> set xs \<Longrightarrow> f x w = Inr (y, wb) \<Longrightarrow> wb = w \<and> y = g x"
  shows "w' = w \<and> ys = map g xs"
  using assms
proof (induction xs arbitrary: ys)
  case Nil
  then show ?case by simp
next
  case (Cons x xs)
  from Cons.prems(1) obtain y w1 ys' where 1: "f x w = Inr (y, w1)"
    and 2: "mapM f xs w1 = Inr (ys', w')" and 3: "ys = y # ys'"
    by (auto simp: bind_Inr_iff)
  from Cons.prems(2) [of x y w1] 1 have 4: "w1 = w" "y = g x"
    by simp_all
  have "w' = w \<and> ys' = map g xs"
  proof (rule Cons.IH)
    show "mapM f xs w = Inr (ys', w')"
      using 2 4 by simp
    fix x' y' wb
    assume "x' \<in> set xs" "f x' w = Inr (y', wb)"
    then show "wb = w \<and> y' = g x'"
      using Cons.prems(2) [of x' y' wb] by simp
  qed
  then show ?case
    using 3 4 by simp
qed

lemma mapM_all_pure:
  assumes "\<And>x. x \<in> set xs \<Longrightarrow> f x w = Inr (g x, w)"
  shows "mapM f xs w = Inr (map g xs, w)"
  using assms by (induction xs) (simp_all add: bind_def)

lemma fitness_term:
  assumes "\<forall>c\<in>set courses. length (students c) \<le> 30"
  shows "bind (py_nth courses i) (\<lambda>course. bind (py_nth rooms idx) (\<lambda>r. room_travel_cost course r)) w
    = (if i < length courses then
         if idx < length rooms then
           if students (courses ! i) = [] then Inl ZeroDivisionError
           else Inr (exact_cost (courses ! i) (room_heap w (rooms ! idx)), w)
         else Inl (IndexError ''list index out of range'')
       else Inl (IndexError ''list index out of range''))"
  using assms by (simp add: bind_def py_nth_def room_travel_cost_small)

lemma fitness_exact:
  assumes exact: "\<forall>c\<in>set courses. length (students c) \<le> 30"
    and f: "fitness courses rooms chrom w = Inr (v, w')"
  shows "w' = w" and "v = exact_fitness courses rooms w chrom"
    and "\<forall>i<length chrom. i < length courses \<and> students (courses ! i) \<noteq> []"
proof -
  define t where "t = (\<lambda>(i, idx). bind (py_nth courses i) (\<lambda>course.
      bind (py_nth rooms idx) (\<lambda>r. room_travel_cost course r)))"
  define g where "g = (\<lambda>(i, idx). exact_cost (courses ! i) (room_heap w (rooms ! idx)))"
  from f obtain costs where m: "mapM t (enumerate 0 chrom) w = Inr (costs, w')"
    and v: "v = sum_list costs"
    by (auto simp: fitness_def bind_Inr_iff t_def)
  have step: "wb = w \<and> y = g x \<and> fst x < length courses \<and> students (courses ! fst x) \<noteq> []"
    if "t x w = Inr (y, wb)" for x y wb
    using that by (cases x) (auto simp: t_def g_def fitness_term [OF exact] split: if_splits)
  have "w' = w \<and> costs = map g (enumerate 0 chrom)"
    using m step by (intro mapM_const_world) blast+
  then show "w' = w" and "v = exact_fitness courses rooms w chrom"
    by (simp_all add: v exact_fitness_def g_def)
  show "\<forall>i<length chrom. i < length courses \<and> students (courses ! i) \<noteq> []"
  proof (intro allI impI)
    fix i assume i: "i < length chrom"
    have "list_all2 (\<lambda>y x. \<exists>wb. t x w = Inr (y, wb)) costs (enumerate 0 chrom)"
      using m
    proof (rule mapM_list_all2_heap [OF _ same_heap_refl])
      show "heap_pure (t x)" for x
        by (cases x) (auto simp: t_def intro!: heap_pure_bind)
      fix x y wa wb
      assume x: "x \<in> set (enumerate 0 chrom)" and "same_heap w wa" and r: "t x wa = Inr (y, wb)"
      then have "room_heap wa = room_heap w"
        by (simp add: same_heap_def)
      then have "t x w = Inr (y, w)"
        using r by (cases x) (auto simp: t_def fitness_term [OF exact] split: if_splits)
      then show "\<exists>wb. t x w = Inr (y, wb)" by blast
    qed
    then obtain wb where "t (enumerate 0 chrom ! i) w = Inr (costs ! i, wb)"
      using i by (auto simp: list_all2_conv_all_nth)
    from step [OF this] i show "i < length courses \<and> students (courses ! i) \<noteq> []"
      by (simp add: nth_enumerate_eq)
  qed
qed

lemma fitness_total:
  assumes exact: "\<forall>c\<in>set courses. length (students c) \<le> 30"
    and "length chrom \<le> length courses" and "\<forall>idx\<in>set chrom. idx < length rooms"
    and "\<forall>i<length chrom. students (courses ! i) \<noteq> []"
  shows "fitness courses rooms chrom w = Inr (exact_fitness courses rooms w chrom, w)"
proof -
  define t where "t = (\<lambda>(i, idx). bind (py_nth courses i) (\<lambda>course.
      bind (py_nth rooms idx) (\<lambda>r. room_travel_cost course r)))"
  define g where "g = (\<lambda>(i, idx). exact_cost (courses ! i) (room_heap w (rooms ! idx)))"
  have "t x w = Inr (g x, w)" if "x \<in> set (enumerate 0 chrom)" for x
  proof -
    obtain i idx where x: "x = (i, idx)" by (cases x)
    with that have "i < length chrom" "idx = chrom ! i"
      by (auto simp: in_set_enumerate_eq)
    then show ?thesis
      using assms(2-4) by (simp add: x t_def g_def fitness_term [OF exact])
  qed
  then have "mapM t (enumerate 0 chrom) w = Inr (map g (enumerate 0 chrom), w)"
    by (rule mapM_all_pure)
  then show ?thesis
    by (simp add: fitness_def bind_def t_def g_def exact_fitness_def)
qed

lemma exact_fitness_heap:
  "room_heap w' = room_heap w \<Longrightarrow> exact_fitness courses rooms w' = exact_fitness courses rooms w"
  by (simp add: exact_fitness_def fun_eq_iff)

section \<open>Replacement keeps the best individuals\<close>

lemma zip_map_self: "zip (map f xs) xs = map (\<lambda>x. (f x, x)) xs"
  by (induction xs) simp_all

lemma sorted_hd_le:
  assumes "sorted (map fst zs)" and "p \<in> set zs"
  shows "fst (hd zs) \<le> fst p"
  using assms by (cases zs) auto

lemma sort_by_exact_head:
  assumes exact: "\<forall>c\<in>set courses. length (students c) \<le> 30"
    and s: "sort_by (fitness courses rooms) xs w = Inr (ys, w')" and ne: "xs \<noteq> []"
  shows "w' = w" and "ys \<noteq> []" and "hd ys \<in> set xs"
    and "\<forall>c\<in>set xs. exact_fitness courses rooms w (hd ys) \<le> exact_fitness courses rooms w c"
proof -
  let ?F = "exact_fitness courses rooms w"
  from s obtain ks where k: "mapM (fitness courses rooms) xs w = Inr (ks, w')"
    and ys: "ys = map snd (sort_key fst (zip ks xs))" and set: "set ys = set xs"
    and len: "length ys = length xs"
    by (rule sort_by_Inr)
  have kw: "w' = w \<and> ks = map ?F xs"
    using k by (rule mapM_const_world) (use fitness_exact [OF exact] in blast)
  then show "w' = w" by simp
  show "ys \<noteq> []"
    using len ne by auto
  then show "hd ys \<in> set xs"
    using set by (metis hd_in_set)
  define zs where "zs = sort_key fst (zip (map ?F xs) xs)"
  have zset: "set zs = (\<lambda>x. (?F x, x)) ` set xs"
    by (simp add: zs_def zip_map_self)
  have sorted: "sorted (map fst zs)"
    by (simp add: zs_def)
  have yz: "ys = map snd zs"
    using ys kw by (simp add: zs_def)
  then have "zs \<noteq> []"
    using \<open>ys \<noteq> []\<close> by auto
  then have "hd zs \<in> set zs"
    by simp
  then have hd: "fst (hd zs) = ?F (snd (hd zs))"
    using zset by auto
  have "hd ys = snd (hd zs)"
    using yz \<open>zs \<noteq> []\<close> by (simp add: hd_map)
  then have h: "?F (hd ys) = fst (hd zs)"
    using hd by simp
  show "\<forall>c\<in>set xs. ?F (hd ys) \<le> ?F c"
  proof
    fix c assume "c \<in> set xs"
    then have "(?F c, c) \<in> set zs"
      using zset by auto
    from sorted_hd_le [OF sorted this] show "?F (hd ys) \<le> ?F c"
      using h by simp
  qed
qed

lemma generation_length:
  assumes g: "generation courses rooms fr pop_size cr mr population w = Inr (population', w')"
    and len: "length population = nat pop_size"
  shows "length population' = nat pop_size"
proof -
  from g obtain parents w1 offspring w2 mutated w3 merged where
    p: "select_parents courses rooms pop_size population w = Inr (parents, w1)"
    and r: "reproduce (length courses) cr pop_size parents w1 = Inr (offspring, w2)"
    and m: "mapM (mutate (length courses) mr fr) offspring w2 = Inr (mutated, w3)"
    and s: "sort_by (fitness courses rooms) (population @ mutated) w3 = Inr (merged, w')"
    and t: "population' = py_take merged pop_size"
    by (auto simp: generation_def bind_Inr_iff)
  have "length offspring = nat pop_size"
    using reproduce_Inr(1) [OF r select_parents_mem(2) [OF p]] .
  then have "length mutated = nat pop_size"
    using mapM_length [OF m] by simp
  moreover have "length merged = length (population @ mutated)"
    using s by (rule sort_by_Inr)
  ultimately have "length merged = nat pop_size + nat pop_size"
    using len by simp
  then show ?thesis
    by (auto simp: t py_take_def)
qed

lemma evolve_length:
  assumes "evolve courses rooms fr pop_size cr mr n population w = Inr (population', w')"
    and "length population = nat pop_size"
  shows "length population' = nat pop_size"
  using assms
proof (induction n arbitrary: population w)
  case 0
  then show ?case by simp
next
  case (Suc n)
  then obtain p1 w1 where g: "generation courses rooms fr pop_size cr mr population w = Inr (p1, w1)"
    and e: "evolve courses rooms fr pop_size cr mr n p1 w1 = Inr (population', w')"
    by (auto simp: bind_Inr_iff)
  show ?case
    using Suc.IH [OF e generation_length [OF g Suc.prems(2)]] .
qed

lemma generation_best:
  assumes exact: "\<forall>c\<in>set courses. length (students c) \<le> 30"
    and g: "generation courses rooms fr pop_size cr mr population w = Inr (population', w')"
    and ne: "population \<noteq> []" and ps: "1 \<le> pop_size"
  shows "\<exists>b\<in>set population'. \<forall>c\<in>set population.
           exact_fitness courses rooms w b \<le> exact_fitness courses rooms w c"
proof -
  from g obtain parents w1 offspring w2 mutated w3 merged where
    p: "select_parents courses rooms pop_size population w = Inr (parents, w1)"
    and r: "reproduce (length courses) cr pop_size parents w1 = Inr (offspring, w2)"
    and m: "mapM (mutate (length courses) mr fr) offspring w2 = Inr (mutated, w3)"
    and s: "sort_by (fitness courses rooms) (population @ mutated) w3 = Inr (merged, w')"
    and t: "population' = py_take merged pop_size"
    by (auto simp: generation_def bind_Inr_iff)
  have "same_heap w w1"
    using heap_pure_select_parents p by (rule heap_pureD)
  moreover have "same_heap w1 w2"
    using heap_pure_reproduce r by (rule heap_pureD)
  moreover have "same_heap w2 w3"
    using m by (intro heap_pureD [OF heap_pure_mapM]) simp_all
  ultimately have "room_heap w3 = room_heap w"
    by (simp add: same_heap_def)
  then have F: "exact_fitness courses rooms w3 = exact_fitness courses rooms w"
    by (rule exact_fitness_heap)
  have xs: "population @ mutated \<noteq> []"
    using ne by simp
  from sort_by_exact_head(2,4) [OF exact s xs]
  have mne: "merged \<noteq> []"
    and le: "\<forall>c\<in>set population. exact_fitness courses rooms w (hd merged)
               \<le> exact_fitness courses rooms w c"
    by (simp_all add: F)
  have "hd merged \<in> set (take (nat pop_size) merged)"
    using mne ps by (cases merged; cases "nat pop_size") auto
  then have "hd merged \<in> set population'"
    using ps by (simp add: t py_take_def)
  with le show ?thesis by blast
qed

lemma evolve_best:
  assumes exact: "\<forall>c\<in>set courses. length (students c) \<le> 30"
    and e: "evolve courses rooms fr pop_size cr mr n population w = Inr (population', w')"
    and ne: "population \<noteq> []" and ps: "1 \<le> pop_size"
  shows "\<exists>b\<in>set population'. \<forall>c\<in>set population.
           exact_fitness courses rooms w b \<le> exact_fitness courses rooms w c"
  using e ne
proof (induction n arbitrary: population w)
  case 0
  let ?F = "exact_fitness courses rooms w"
  have "finite (?F ` set population)" "?F ` set population \<noteq> {}"
    using 0(2) by simp_all
  then have "Min (?F ` set population) \<in> ?F ` set population"
    by (rule Min_in)
  then obtain b where b: "b \<in> set population" "?F b = Min (?F ` set population)"
    by auto
  then have "\<forall>c\<in>set population. ?F b \<le> ?F c"
    by simp
  with b(1) 0(1) show ?case by auto
next
  case (Suc n)
  then obtain p1 w1 where g: "generation courses rooms fr pop_size cr mr population w = Inr (p1, w1)"
    and e1: "evolve courses rooms fr pop_size cr mr n p1 w1 = Inr (population', w')"
    by (auto simp: bind_Inr_iff)
  from generation_best [OF exact g Suc.prems(2) ps] obtain b1 where
    b1: "b1 \<in> set p1" "\<forall>c\<in>set population.
           exact_fitness courses rooms w b1 \<le> exact_fitness courses rooms w c"
    by blast
  have "same_heap w w1"
    using heap_pure_generation g by (rule heap_pureD)
  then have F: "exact_fitness courses rooms w1 = exact_fitness courses rooms w"
    by (intro exact_fitness_heap) (simp add: same_heap_def)
  have "p1 \<noteq> []" using b1(1) by auto
  from Suc.IH [OF e1 this] obtain b where
    b: "b \<in> set population'" "\<forall>c\<in>set p1.
           exact_fitness courses rooms w b \<le> exact_fitness courses rooms w c"
    by (auto simp: F)
  then have "exact_fitness courses rooms w b \<le> exact_fitness courses rooms w b1"
    using b1(1) by simp
  with b1(2) have "\<forall>c\<in>set population.
           exact_fitness courses rooms w b \<le> exact_fitness courses rooms w c"
    by fastforce
  with b(1) show ?case by blast
qed

section \<open>Best fitness across generations\<close>

lemma min_by_Inr:
  assumes "min_by f xs w = Inr (x, w')"
  obtains ks where "mapM f xs w = Inr (ks, w')" and "xs \<noteq> []"
proof -
  from assms obtain ks w1 where k: "mapM f xs w = Inr (ks, w1)"
    and r: "(case zip ks xs of [] \<Rightarrow> raise ValueError | p # ps \<Rightarrow> ret (first_min p ps)) w1
            = Inr (x, w')"
    by (auto simp: min_by_def bind_Inr_iff)
  from r have "zip ks xs \<noteq> []" and "w1 = w'"
    by (auto split: list.splits)
  then have "xs \<noteq> []"
    by auto
  with k \<open>w1 = w'\<close> that show ?thesis
    by simp
qed

lemma valid_chrom_genes:
  assumes "valid_chrom (feasible_rooms courses rooms w) chrom"
  shows "length chrom = length courses" and "\<forall>idx\<in>set chrom. idx < length rooms"
proof -
  from assms have l: "length chrom = length courses"
    and g: "\<And>i. i < length courses \<Longrightarrow> chrom ! i \<in> set (feasible_rooms courses rooms w ! i)"
    by (auto simp: valid_chrom_def list_all2_conv_all_nth)
  show "length chrom = length courses" by (rule l)
  show "\<forall>idx\<in>set chrom. idx < length rooms"
  proof
    fix idx assume "idx \<in> set chrom"
    then obtain i where i: "i < length chrom" "idx = chrom ! i"
      by (auto simp: in_set_conv_nth)
    then have "i < length courses" "idx \<in> set (feasible_rooms courses rooms w ! i)"
      using l g by simp_all
    then show "idx < length rooms"
      by (rule feasible_rooms_nth(1))
  qed
qed

text \<open>
  C6. When every course has at most 30 students, a call of \<open>genetic_allocate\<close> that returns
  has a non-empty initial population, and some individual of the final population has a
  fitness that is at most the fitness of every individual of the initial population; the
  fitness of these individuals is defined and does not depend on the random sources.
\<close>

theorem genetic_best_fitness_nonincreasing:
  "(\<forall>c\<in>set courses. length (students c) \<le> 30)
   \<and> genetic_allocate courses rooms pop_size generations crossover_rate mutation_rate seed42 w
       = Inr (alloc, w')
   \<longrightarrow> (\<exists>initial final w1.
          ga_run courses rooms pop_size generations crossover_rate mutation_rate seed42 w
            = Inr ((initial, final), w1)
          \<and> initial \<noteq> [] \<and> final \<noteq> []
          \<and> (\<exists>best\<in>set final. \<forall>c\<in>set initial. \<exists>vb vc.
                fitness courses rooms best w1 = Inr (vb, w1)
                \<and> fitness courses rooms c w1 = Inr (vc, w1) \<and> vb \<le> vc))"
proof
  assume a: "(\<forall>c\<in>set courses. length (students c) \<le> 30)
   \<and> genetic_allocate courses rooms pop_size generations crossover_rate mutation_rate seed42 w
       = Inr (alloc, w')"
  then have exact: "\<forall>c\<in>set courses. length (students c) \<le> 30"
    by simp
  let ?fr = "feasible_rooms courses rooms w"
  from a have "genetic_allocate courses rooms pop_size generations crossover_rate mutation_rate
      seed42 w = Inr (alloc, w')"
    by simp
  then obtain initial final w1 top w2 where
    run: "ga_run courses rooms pop_size generations crossover_rate mutation_rate seed42 w
            = Inr ((initial, final), w1)"
    and top: "min_by (fitness courses rooms) final w1 = Inr (top, w2)"
    by (rule genetic_allocate_Inr)
  from run obtain w0 where
    init: "init_population ?fr pop_size (w\<lparr>rng := seed42\<rparr>) = Inr (initial, w0)"
    and ev: "evolve courses rooms ?fr pop_size crossover_rate mutation_rate (nat generations)
           initial w0 = Inr (final, w1)"
    by (rule ga_run_Inr)
  from top obtain ks where ks: "mapM (fitness courses rooms) final w1 = Inr (ks, w2)"
    and fne: "final \<noteq> []"
    by (rule min_by_Inr)
  have li: "length initial = nat pop_size"
    using ga_run_valid(3) [OF run] .
  then have "length final = nat pop_size"
    using evolve_length [OF ev] by simp
  then have "0 < nat pop_size"
    using fne by (cases final) simp_all
  then have ps: "1 \<le> pop_size"
    by linarith
  have ine: "initial \<noteq> []"
    using li \<open>0 < nat pop_size\<close> by auto
  have valid: "\<forall>c\<in>set initial \<union> set final. valid_chrom ?fr c"
    using ga_run_valid(1,2) [OF run] by auto
  obtain f0 where f0: "f0 \<in> set final" "f0 = final ! 0"
    using fne by (cases final) auto
  from mapM_nth [OF ks, of 0] fne obtain wa wb where
    "fitness courses rooms f0 wa = Inr (ks ! 0, wb)"
    using f0 by (cases final) auto
  from fitness_exact(3) [OF exact this] valid_chrom_genes(1) [of courses rooms w f0] valid f0(1)
  have rosters: "\<forall>i<length courses. students (courses ! i) \<noteq> []"
    by simp
  have fit: "fitness courses rooms c w1 = Inr (exact_fitness courses rooms w1 c, w1)"
    if "c \<in> set initial \<union> set final" for c
    using valid that rosters valid_chrom_genes [of courses rooms w c]
    by (intro fitness_total [OF exact]) auto
  have "same_heap w0 w1"
    using heap_pure_evolve ev by (rule heap_pureD)
  then have F: "exact_fitness courses rooms w1 = exact_fitness courses rooms w0"
    by (intro exact_fitness_heap) (simp add: same_heap_def)
  from evolve_best [OF exact ev ine ps] obtain b where
    b: "b \<in> set final" "\<forall>c\<in>set initial.
           exact_fitness courses rooms w1 b \<le> exact_fitness courses rooms w1 c"
    by (auto simp: F)
  have "\<forall>c\<in>set initial. \<exists>vb vc. fitness courses rooms b w1 = Inr (vb, w1)
                \<and> fitness courses rooms c w1 = Inr (vc, w1) \<and> vb \<le> vc"
    using b fit by auto
  with run ine fne b(1) show "\<exists>initial final w1.
          ga_run courses rooms pop_size generations crossover_rate mutation_rate seed42 w
            = Inr ((initial, final), w1)
          \<and> initial \<noteq> [] \<and> final \<noteq> []
          \<and> (\<exists>best\<in>set final. \<forall>c\<in>set initial. \<exists>vb vc.
                fitness courses rooms best w1 = Inr (vb, w1)
                \<and> fitness courses rooms c w1 = Inr (vc, w1) \<and> vb \<le> vc)"
    by blast
qed

theorem genetic_best_fitness_nonincreasing_witness:
  "length (students ex_a) \<le> 30 \<and> length (students ex_b) \<le> 30
   \<and> genetic_allocate [ex_a, ex_b] [0, 1] 2 1 (4 / 5) (1 / 5) (\<lambda>_. 0) ex_campus
       = Inr ([''A'' \<mapsto> ''R50'', ''B'' \<mapsto> ''R50''], ex_campus)
   \<and> ga_run [ex_a, ex_b] [0, 1] 2 1 (4 / 5) (1 / 5) (\<lambda>_. 0) ex_campus
       = Inr (([[0, 0], [0, 0]], [[0, 0], [0, 0]]), ex_campus)
   \<and> fitness [ex_a, ex_b] [0, 1] [0, 0] ex_campus = Inr (2, ex_campus)"
  using genetic_best_fitness_nonincreasing [of "[ex_a, ex_b]" "[0, 1]" 2 1 "4 / 5" "1 / 5"
      "\<lambda>_. 0" ex_campus "[''A'' \<mapsto> ''R50'', ''B'' \<mapsto> ''R50'']" ex_campus]
    ex_genetic ex_ga_run ex_fitness
  by (simp add: ex_fields)

section \<open>A course without students\<close>

lemma travel_cost_empty: "students c = [] \<Longrightarrow> travel_cost c r w = Inl ZeroDivisionError"
  by (simp add: travel_cost_small)

lemma room_travel_cost_cases:
  "room_travel_cost c r w = Inl ZeroDivisionError \<and> students c = []
   \<or> (\<exists>v w'. room_travel_cost c r w = Inr (v, w') \<and> students c \<noteq> [])"
  using travel_cost_cases [of c "room_heap w r" w] by (simp add: room_travel_cost_def)

lemma mapM_first_error:
  assumes "\<And>x w. x \<in> set xs \<Longrightarrow> f x w = Inl e \<or> (\<exists>y w'. f x w = Inr (y, w'))"
    and "\<exists>x\<in>set xs. \<forall>w. f x w = Inl e"
  shows "mapM f xs w = Inl e"
  using assms
proof (induction xs arbitrary: w)
  case Nil
  then show ?case by simp
next
  case (Cons x xs)
  show ?case
  proof (cases "f x w")
    case (Inl e')
    then have "e' = e"
      using Cons.prems(1) [of x w] by auto
    then show ?thesis
      using Inl by (simp add: bind_def)
  next
    case (Inr p)
    obtain y w1 where p: "p = (y, w1)" by (cases p)
    have "f x w \<noteq> Inl e"
      using Inr by simp
    then have "\<not> (\<forall>w. f x w = Inl e)"
      by blast
    then have "\<exists>x\<in>set xs. \<forall>w. f x w = Inl e"
      using Cons.prems(2) by auto
    then have "mapM f xs w1 = Inl e"
      using Cons.IH [of w1] Cons.prems(1) by auto
    then show ?thesis
      using Inr p by (simp add: bind_def)
  qed
qed

lemma greedy_step_empty_roster:
  assumes "students c = []" and "r \<in> set rooms"
    and "is_available (room_heap w r) (timeslot c) (course_size c)"
  shows "greedy_step rooms c alloc w = Inl ZeroDivisionError"
proof -
  define feasible where
    "feasible = filter (\<lambda>r. is_available (room_heap w r) (timeslot c) (course_size c)) rooms"
  have ne: "feasible \<noteq> []"
    using assms(2,3) by (auto simp: feasible_def filter_empty_conv)
  have "mapM (room_travel_cost c) feasible w = Inl ZeroDivisionError"
  proof (rule mapM_first_error)
    show "room_travel_cost c x w' = Inl ZeroDivisionError
        \<or> (\<exists>y w''. room_travel_cost c x w' = Inr (y, w''))" for x w'
      using room_travel_cost_cases [of c x w'] by blast
    show "\<exists>x\<in>set feasible. \<forall>w'. room_travel_cost c x w' = Inl ZeroDivisionError"
      using ne assms(1) room_travel_cost_cases [of c] by (cases feasible) auto
  qed
  then have "min_by (room_travel_cost c) feasible w = Inl ZeroDivisionError"
    by (simp add: min_by_def bind_def)
  then show ?thesis
    using ne by (simp add: greedy_step_def Let_def bind_def feasible_def)
qed

lemma greedy_step_Inr_roster:
  assumes "greedy_step rooms c alloc w = Inr (alloc', w')"
  shows "students c \<noteq> []"
proof
  assume e: "students c = []"
  from assms obtain b where "b \<in> set rooms"
    "is_available (room_heap w b) (timeslot c) (course_size c)"
    by (rule greedy_step_Inr)
  from greedy_step_empty_roster [OF e this] assms show False
    by simp
qed

lemma greedy_loop_Inr_rosters:
  assumes "greedy_loop rooms cs alloc w = Inr (alloc', w')"
  shows "\<forall>c\<in>set cs. students c \<noteq> []"
  using assms
proof (induction cs arbitrary: alloc w)
  case Nil
  then show ?case by simp
next
  case (Cons c cs)
  then obtain a1 w1 where s: "greedy_step rooms c alloc w = Inr (a1, w1)"
    and l: "greedy_loop rooms cs a1 w1 = Inr (alloc', w')"
    by (auto simp: bind_Inr_iff)
  show ?case
    using greedy_step_Inr_roster [OF s] Cons.IH [OF l] by simp
qed

lemma greedy_allocate_empty_roster:
  assumes "c \<in> set courses" and "students c = []"
  shows "\<exists>e. greedy_allocate courses rooms w = Inl e"
proof (cases "greedy_allocate courses rooms w")
  case (Inl e)
  then show ?thesis by blast
next
  case (Inr p)
  obtain alloc w' where "p = (alloc, w')" by (cases p)
  with Inr have "greedy_loop rooms (sorted_courses courses) Map.empty w = Inr (alloc, w')"
    by (simp add: greedy_allocate_def)
  from greedy_loop_Inr_rosters [OF this] assms show ?thesis
    by simp
qed

lemma fitness_Inr_rosters:
  assumes "fitness courses rooms chrom w = Inr (v, w')"
  shows "\<forall>i<length chrom. i < length courses \<and> students (courses ! i) \<noteq> []"
proof (intro allI impI)
  fix i assume i: "i < length chrom"
  define t where "t = (\<lambda>(i, idx). bind (py_nth courses i) (\<lambda>course.
      bind (py_nth rooms idx) (\<lambda>r. room_travel_cost course r)))"
  from assms obtain costs where m: "mapM t (enumerate 0 chrom) w = Inr (costs, w')"
    by (auto simp: fitness_def bind_Inr_iff t_def)
  from mapM_nth [OF m, of i] i obtain wa wb where
    "t (i, chrom ! i) wa = Inr (costs ! i, wb)"
    by (auto simp: nth_enumerate_eq)
  then have l: "i < length courses"
    and "\<exists>r wc. room_travel_cost (courses ! i) r wc = Inr (costs ! i, wb)"
    by (auto simp: t_def bind_Inr_iff py_nth_def split: if_splits)
  then obtain r wc where "room_travel_cost (courses ! i) r wc = Inr (costs ! i, wb)"
    by blast
  then have "students (courses ! i) \<noteq> []"
    using room_travel_cost_cases [of "courses ! i" r wc] by auto
  with l show "i < length courses \<and> students (courses ! i) \<noteq> []"
    by simp
qed

lemma fitness_empty_roster:
  assumes e: "students (courses ! i) = []" and i: "i < length chrom"
    and len: "length chrom \<le> length courses" and genes: "\<forall>idx\<in>set chrom. idx < length rooms"
  shows "fitness courses rooms chrom w = Inl ZeroDivisionError"
proof -
  define t where "t = (\<lambda>(i, idx). bind (py_nth courses i) (\<lambda>course.
      bind (py_nth rooms idx) (\<lambda>r. room_travel_cost course r)))"
  have t: "t (j, chrom ! j) w' = room_travel_cost (courses ! j) (rooms ! (chrom ! j)) w'"
    if "j < length chrom" for j w'
    using that len genes by (simp add: t_def bind_def py_nth_def)
  have "mapM t (enumerate 0 chrom) w = Inl ZeroDivisionError"
  proof (rule mapM_first_error)
    fix x w'
    assume x: "x \<in> set (enumerate 0 chrom)"
    obtain j g where jg: "x = (j, g)"
      by (cases x)
    with x have j: "j < length chrom" "x = (j, chrom ! j)"
      by (auto simp: in_set_enumerate_eq)
    show "t x w' = Inl ZeroDivisionError \<or> (\<exists>y w''. t x w' = Inr (y, w''))"
      using room_travel_cost_cases [of "courses ! j" "rooms ! (chrom ! j)" w'] t [OF j(1)] j(2)
      by auto
  next
    have "(i, chrom ! i) \<in> set (enumerate 0 chrom)"
      using i by (simp add: in_set_enumerate_eq)
    moreover have "\<forall>w'. t (i, chrom ! i) w' = Inl ZeroDivisionError"
      using t [OF i] e room_travel_cost_cases [of "courses ! i"] by auto
    ultimately show "\<exists>x\<in>set (enumerate 0 chrom). \<forall>w'. t x w' = Inl ZeroDivisionError"
      by blast
  qed
  then show ?thesis
    by (simp add: fitness_def bind_def t_def)
qed

lemma genetic_allocate_empty_roster:
  assumes "c \<in> set courses" and "students c = []"
  shows "\<exists>e. genetic_allocate courses rooms pop_size generations cr mr seed w = Inl e"
proof (cases "genetic_allocate courses rooms pop_size generations cr mr seed w")
  case (Inl e)
  then show ?thesis by blast
next
  case (Inr p)
  obtain alloc w' where "p = (alloc, w')" by (cases p)
  with Inr have "genetic_allocate courses rooms pop_size generations cr mr seed w = Inr (alloc, w')"
    by simp
  then obtain initial final w1 top w2 where
    run: "ga_run courses rooms pop_size generations cr mr seed w = Inr ((initial, final), w1)"
    and top: "min_by (fitness courses rooms) final w1 = Inr (top, w2)"
    by (rule genetic_allocate_Inr)
  from top obtain ks where ks: "mapM (fitness courses rooms) final w1 = Inr (ks, w2)"
    and fne: "final \<noteq> []"
    by (rule min_by_Inr)
  from mapM_nth [OF ks, of 0] fne obtain wa wb where
    f: "fitness courses rooms (final ! 0) wa = Inr (ks ! 0, wb)"
    by auto
  have "final ! 0 \<in> set final"
    using fne by simp
  then have "length (final ! 0) = length courses"
    using ga_run_valid(2) [OF run] valid_chrom_genes(1) by blast
  with fitness_Inr_rosters [OF f] have "\<forall>i<length courses. students (courses ! i) \<noteq> []"
    by simp
  with assms show ?thesis
    by (auto simp: in_set_conv_nth)
qed

lemma local_search_empty_roster:
  assumes "c \<in> set courses" and "students c = []"
  shows "\<exists>e. local_search a courses rooms max_iter w = Inl e"
proof (cases "local_search a courses rooms max_iter w")
  case (Inl e)
  then show ?thesis by blast
next
  case (Inr p)
  obtain cur w' where "p = (cur, w')" by (cases p)
  with Inr obtain c0 cN where "ls_run a courses rooms max_iter w = Inr ((cur, c0, cN), w')"
    by (auto simp: local_search_Inr)
  then obtain w1 w2 where "cost_of_alloc courses rooms cur w1 = Inr (c0, w2)"
    by (rule ls_run_Inr)
  then obtain costs where m: "mapM (\<lambda>course.
             bind (dict_get cur (course_id course)) (\<lambda>k.
             bind (py_get rooms k) (\<lambda>r. room_travel_cost course r))) courses w1 = Inr (costs, w2)"
    by (auto simp: cost_of_alloc_def bind_Inr_iff)
  from assms(1) obtain i where i: "i < length courses" "courses ! i = c"
    by (auto simp: in_set_conv_nth)
  from mapM_nth [OF m i(1)] i(2) obtain r wc wb where
    "room_travel_cost c r wc = Inr (costs ! i, wb)"
    by (auto simp: bind_Inr_iff)
  then show ?thesis
    using room_travel_cost_cases [of c r wc] assms(2) by auto
qed

lemma ex_empty_fields:
  "students ex_empty = []" "course_size ex_empty = 0" "timeslot ex_empty = 0"
  "course_id ex_empty = ''E''"
  by (simp_all add: ex_empty_def)

lemma ex_empty_available:
  "is_available (room_heap ex_campus 0) (timeslot ex_empty) (course_size ex_empty)"
  by (simp add: is_available_def ex_campus_simps ex_fields ex_empty_fields)

lemma ex_greedy_empty: "greedy_allocate [ex_empty] [0, 1] ex_campus = Inl ZeroDivisionError"
proof -
  have "greedy_step [0, 1] ex_empty Map.empty ex_campus = Inl ZeroDivisionError"
    using ex_empty_available by (intro greedy_step_empty_roster [of _ 0]) (simp_all add: ex_empty_fields)
  then show ?thesis
    by (simp add: greedy_allocate_def sorted_courses_def bind_def)
qed

lemma ex_local_search_empty:
  "local_search 0 [ex_empty] ex_rooms_by_id 5 ex_empty_campus = Inl ZeroDivisionError"
  by (simp add: local_search_def ls_run_def bind_def dict_copy_def cost_of_alloc_def dict_get_def
      py_get_def room_travel_cost_def travel_cost_empty ex_empty_fields ex_empty_campus_def
      ex_rooms_by_id_def)

lemma ex_fitness_empty: "fitness [ex_empty] [0, 1] [0] w = Inl ZeroDivisionError"
  by (rule fitness_empty_roster [of _ 0]) (simp_all add: ex_empty_fields)

lemma ex_genetic_empty:
  "genetic_allocate [ex_empty] [0, 1] 2 1 (4 / 5) (1 / 5) (\<lambda>_. 0) ex_campus
   = Inl ZeroDivisionError"
proof -
  have w: "ex_campus\<lparr>rng := \<lambda>_. 0\<rparr> = ex_campus"
    by (simp add: ex_campus_def)
  have f: "feasible_rooms [ex_empty] [0, 1] ex_campus = [[0, 1]]"
    by (simp add: feasible_rooms_def ex_campus_simps ex_fields ex_empty_fields upt_rec)
  have i: "init_population [[0, 1]] 2 ex_campus = Inr ([[0], [0]], ex_campus)"
    using ex_rng by (simp add: init_population_def random_chrom_def bind_def upt_rec)
  have s: "random_sample [[0], [0::nat]] 2 ex_campus = Inr ([[0], [0]], ex_campus)"
    using random_sample_zeros [of ex_campus 2 "[[0], [0::nat]]"] by (simp add: ex_campus_simps)
  have "min_by (fitness [ex_empty] [0, 1]) [[0], [0]] ex_campus = Inl ZeroDivisionError"
    using ex_fitness_empty [of ex_campus] by (simp add: min_by_def bind_def)
  then have t: "tournament [ex_empty] [0, 1] [[0], [0]] ex_campus = Inl ZeroDivisionError"
    using s by (simp add: tournament_def bind_def)
  have "select_parents [ex_empty] [0, 1] 2 [[0], [0]] ex_campus = Inl ZeroDivisionError"
    using t by (simp add: select_parents_def bind_def upt_rec)
  then have "generation [ex_empty] [0, 1] [[0, 1]] 2 (4 / 5) (1 / 5) [[0], [0]] ex_campus
      = Inl ZeroDivisionError"
    by (simp add: generation_def bind_def)
  then show ?thesis
    using w f i by (simp add: genetic_allocate_def ga_run_def Let_def bind_def)
qed

text \<open>
  C10. For a course with no student, \<open>travel_cost\<close> raises \<open>ZeroDivisionError\<close>, for
  every room and every state of the random sources. So does the turn of the greedy
  allocator for such a course when some room is available to it, and the fitness of every
  chromosome that holds a gene for it. A call of \<open>greedy_allocate\<close>, of
  \<open>local_search\<close> or of \<open>genetic_allocate\<close> on a course list that holds such a
  course raises and returns no allocation.
\<close>

theorem empty_roster_raises:
  "students course = [] \<longrightarrow>
     travel_cost course room w = Inl ZeroDivisionError
     \<and> (r \<in> set room_list \<and> is_available (room_heap w r) (timeslot course) (course_size course)
          \<longrightarrow> greedy_step room_list course alloc w = Inl ZeroDivisionError)
     \<and> (i < length chrom \<and> length chrom \<le> length courses \<and> courses ! i = course
          \<and> (\<forall>idx\<in>set chrom. idx < length room_list)
          \<longrightarrow> fitness courses room_list chrom w = Inl ZeroDivisionError)
     \<and> (course \<in> set courses
          \<longrightarrow> (\<exists>e. greedy_allocate courses room_list w = Inl e)
            \<and> (\<exists>e. local_search allocation courses rooms max_iter w = Inl e)
            \<and> (\<exists>e. genetic_allocate courses room_list pop_size generations crossover_rate
                       mutation_rate seed42 w = Inl e))"
proof (intro impI conjI)
  assume e: "students course = []"
  show "travel_cost course room w = Inl ZeroDivisionError"
    using e by (rule travel_cost_empty)
  show "greedy_step room_list course alloc w = Inl ZeroDivisionError"
    if "r \<in> set room_list \<and> is_available (room_heap w r) (timeslot course) (course_size course)"
    using e that by (intro greedy_step_empty_roster [of _ r]) simp_all
  show "fitness courses room_list chrom w = Inl ZeroDivisionError"
    if "i < length chrom \<and> length chrom \<le> length courses \<and> courses ! i = course
          \<and> (\<forall>idx\<in>set chrom. idx < length room_list)"
    using e that by (intro fitness_empty_roster [of _ i]) simp_all
  show "\<exists>e. greedy_allocate courses room_list w = Inl e" if "course \<in> set courses"
    using that e by (rule greedy_allocate_empty_roster)
  show "\<exists>e. local_search allocation courses rooms max_iter w = Inl e" if "course \<in> set courses"
    using that e by (rule local_search_empty_roster)
  show "\<exists>e. genetic_allocate courses room_list pop_size generations crossover_rate
                       mutation_rate seed42 w = Inl e" if "course \<in> set courses"
    using that e by (rule genetic_allocate_empty_roster)
qed

theorem empty_roster_raises_witness:
  "students ex_empty = []
   \<and> is_available (room_heap ex_campus 0) (timeslot ex_empty) (course_size ex_empty)
   \<and> travel_cost ex_empty ex_r50 ex_campus = Inl ZeroDivisionError
   \<and> greedy_step [0, 1] ex_empty Map.empty ex_campus = Inl ZeroDivisionError
   \<and> fitness [ex_empty] [0, 1] [0] ex_campus = Inl ZeroDivisionError
   \<and> greedy_allocate [ex_empty] [0, 1] ex_campus = Inl ZeroDivisionError
   \<and> local_search 0 [ex_empty] ex_rooms_by_id 5 ex_empty_campus = Inl ZeroDivisionError
   \<and> genetic_allocate [ex_empty] [0, 1] 2 1 (4 / 5) (1 / 5) (\<lambda>_. 0) ex_campus
       = Inl ZeroDivisionError"
  using empty_roster_raises [of ex_empty ex_r50 ex_campus 0 "[0, 1]" Map.empty 0 "[0]" "[ex_empty]"
      0 ex_rooms_by_id 5 2 1 "4 / 5" "1 / 5" "\<lambda>_. 0"]
    ex_empty_available ex_greedy_empty ex_genetic_empty ex_local_search_empty
  by (simp add: ex_empty_fields)

section \<open>The greedy allocator when every course has a student\<close>

lemma mapM_total:
  assumes "\<And>x w. x \<in> set xs \<Longrightarrow> \<exists>y w'. f x w = Inr (y, w')"
  shows "\<exists>ys w'. mapM f xs w = Inr (ys, w')"
  using assms
proof (induction xs arbitrary: w)
  case Nil
  then show ?case by simp
next
  case (Cons x xs)
  from Cons.prems [of x w] obtain y w1 where 1: "f x w = Inr (y, w1)"
    by auto
  from Cons.IH [of w1] Cons.prems obtain ys w2 where "mapM f xs w1 = Inr (ys, w2)"
    by auto
  with 1 show ?case
    by (simp add: bind_def)
qed

lemma greedy_step_outcome:
  assumes "students c \<noteq> []"
  shows "(\<forall>r\<in>set rooms. \<not> is_available (room_heap w r) (timeslot c) (course_size c))
         \<and> greedy_step rooms c alloc w = Inl (RuntimeError (course_id c) (timeslot c))
       \<or> (\<exists>r\<in>set rooms. is_available (room_heap w r) (timeslot c) (course_size c))
         \<and> (\<exists>alloc' w'. greedy_step rooms c alloc w = Inr (alloc', w'))"
proof -
  define feasible where
    "feasible = filter (\<lambda>r. is_available (room_heap w r) (timeslot c) (course_size c)) rooms"
  show ?thesis
  proof (cases "feasible = []")
    case True
    then have "greedy_step rooms c alloc w = Inl (RuntimeError (course_id c) (timeslot c))"
      by (simp add: greedy_step_def feasible_def)
    moreover have "\<forall>r\<in>set rooms. \<not> is_available (room_heap w r) (timeslot c) (course_size c)"
      using True by (simp add: feasible_def filter_empty_conv)
    ultimately show ?thesis by blast
  next
    case False
    have "\<exists>ys w'. mapM (room_travel_cost c) feasible w = Inr (ys, w')"
    proof (rule mapM_total)
      show "\<exists>y w'. room_travel_cost c x wa = Inr (y, w')" for x wa
        using room_travel_cost_cases [of c x wa] assms by auto
    qed
    then obtain ks w1 where m: "mapM (room_travel_cost c) feasible w = Inr (ks, w1)"
      by blast
    then have "length ks = length feasible"
      by (rule mapM_length)
    with False obtain p ps where "zip ks feasible = p # ps"
      by (cases ks; cases feasible) auto
    with m have "\<exists>b. min_by (room_travel_cost c) feasible w = Inr (b, w1)"
      by (simp add: min_by_def bind_def)
    then have "\<exists>alloc' w'. greedy_step rooms c alloc w = Inr (alloc', w')"
      using False by (auto simp: greedy_step_def Let_def bind_def feasible_def)
    moreover have "\<exists>r\<in>set rooms. is_available (room_heap w r) (timeslot c) (course_size c)"
      using False by (auto simp: feasible_def filter_empty_conv)
    ultimately show ?thesis by blast
  qed
qed

lemma greedy_loop_append:
  "greedy_loop rooms (ds @ es) alloc w
   = bind (greedy_loop rooms ds alloc) (greedy_loop rooms es) w"
  by (induction ds arbitrary: alloc w) (auto simp: bind_def split: sum.splits)

text \<open>
  The turn at which the greedy allocator finds no room: the courses before \<open>c\<close> have been
  placed, and in the state they leave every room is occupied at the time slot of \<open>c\<close> or
  smaller than \<open>c\<close>.
\<close>

lemma greedy_loop_infeasible:
  assumes "cs = ds @ c # rest" and "greedy_loop rooms ds alloc w = Inr (a1, w1)"
    and "\<forall>r\<in>set rooms. \<not> is_available (room_heap w1 r) (timeslot c) (course_size c)"
  shows "greedy_loop rooms cs alloc w = Inl (RuntimeError (course_id c) (timeslot c))"
proof -
  have "greedy_step rooms c a1 w1 = Inl (RuntimeError (course_id c) (timeslot c))"
    using assms(3) by (simp add: greedy_step_def filter_empty_conv)
  then show ?thesis
    using assms(1,2) by (simp add: greedy_loop_append bind_def)
qed

lemma greedy_loop_outcome:
  assumes "\<forall>c\<in>set cs. students c \<noteq> []"
  shows "(\<exists>alloc' w'. greedy_loop rooms cs alloc w = Inr (alloc', w')
            \<and> dom alloc' = dom alloc \<union> course_id ` set cs)
       \<or> (\<exists>ds c rest a1 w1. cs = ds @ c # rest \<and> greedy_loop rooms ds alloc w = Inr (a1, w1)
            \<and> (\<forall>r\<in>set rooms. \<not> is_available (room_heap w1 r) (timeslot c) (course_size c))
            \<and> greedy_loop rooms cs alloc w = Inl (RuntimeError (course_id c) (timeslot c)))"
  using assms
proof (induction cs arbitrary: alloc w)
  case Nil
  then show ?case by simp
next
  case (Cons c cs)
  then have c: "students c \<noteq> []" by simp
  from greedy_step_outcome [OF c, of rooms w alloc] show ?case
  proof (elim disjE conjE exE)
    assume "\<forall>r\<in>set rooms. \<not> is_available (room_heap w r) (timeslot c) (course_size c)"
      and "greedy_step rooms c alloc w = Inl (RuntimeError (course_id c) (timeslot c))"
    then have "c # cs = [] @ c # cs \<and> greedy_loop rooms [] alloc w = Inr (alloc, w)
        \<and> (\<forall>r\<in>set rooms. \<not> is_available (room_heap w r) (timeslot c) (course_size c))
        \<and> greedy_loop rooms (c # cs) alloc w = Inl (RuntimeError (course_id c) (timeslot c))"
      by (simp add: bind_def)
    then show ?thesis by blast
  next
    fix a1 w1
    assume s: "greedy_step rooms c alloc w = Inr (a1, w1)"
    from s obtain b where a1: "a1 = alloc(course_id c \<mapsto> room_id (room_heap w b))"
      by (rule greedy_step_Inr)
    have l: "greedy_loop rooms (c # cs) alloc w = greedy_loop rooms cs a1 w1"
      using s by (simp add: bind_def)
    from Cons.IH [of a1 w1] Cons.prems
    consider (ok) alloc' w' where "greedy_loop rooms cs a1 w1 = Inr (alloc', w')"
        "dom alloc' = dom a1 \<union> course_id ` set cs"
      | (bad) ds d rest a2 w2 where "cs = ds @ d # rest"
        "greedy_loop rooms ds a1 w1 = Inr (a2, w2)"
        "\<forall>r\<in>set rooms. \<not> is_available (room_heap w2 r) (timeslot d) (course_size d)"
        "greedy_loop rooms cs a1 w1 = Inl (RuntimeError (course_id d) (timeslot d))"
      by auto
    then show ?thesis
    proof cases
      case ok
      then have "greedy_loop rooms (c # cs) alloc w = Inr (alloc', w')
          \<and> dom alloc' = dom alloc \<union> course_id ` set (c # cs)"
        using l a1 by auto
      then show ?thesis by blast
    next
      case bad
      have "c # cs = (c # ds) @ d # rest \<and> greedy_loop rooms (c # ds) alloc w = Inr (a2, w2)
        \<and> (\<forall>r\<in>set rooms. \<not> is_available (room_heap w2 r) (timeslot d) (course_size d))
        \<and> greedy_loop rooms (c # cs) alloc w = Inl (RuntimeError (course_id d) (timeslot d))"
        using bad l s by (simp add: bind_def)
      then show ?thesis by blast
    qed
  qed
qed

text \<open>
  When every course has a student, \<^verbatim>\<open>greedy_allocate\<close> does what is expected of it: it
  raises the \<^verbatim>\<open>RuntimeError\<close> of the course that finds no room at its turn, or it returns
  a mapping defined on every course.
\<close>

lemma greedy_allocate_nonempty_rosters:
  assumes "\<forall>c\<in>set courses. students c \<noteq> []"
  shows "(\<exists>alloc w'. greedy_allocate courses rooms w = Inr (alloc, w')
            \<and> dom alloc = course_id ` set courses)
       \<or> (\<exists>ds c rest a1 w1. sorted_courses courses = ds @ c # rest
            \<and> greedy_loop rooms ds Map.empty w = Inr (a1, w1)
            \<and> (\<forall>r\<in>set rooms. \<not> is_available (room_heap w1 r) (timeslot c) (course_size c))
            \<and> greedy_allocate courses rooms w = Inl (RuntimeError (course_id c) (timeslot c)))"
  using greedy_loop_outcome [of "sorted_courses courses" rooms Map.empty w] assms
  by (simp add: greedy_allocate_def)

section \<open>The greedy allocator on a course without students\<close>

text \<open>
  C1, at the input that breaks it. One course without students and two empty rooms large
  enough for it: no course lacks a feasible room, and the call neither raises the
  infeasibility error nor returns an allocation.
\<close>

theorem greedy_allocate_division_by_zero:
  "is_available (room_heap ex_campus 0) (timeslot ex_empty) (course_size ex_empty)
   \<and> is_available (room_heap ex_campus 1) (timeslot ex_empty) (course_size ex_empty)
   \<and> greedy_allocate [ex_empty] [0, 1] ex_campus = Inl ZeroDivisionError"
  using ex_empty_available ex_greedy_empty
  by (simp add: is_available_def ex_campus_simps ex_fields ex_empty_fields)

section \<open>Rounding to a double\<close>

lemma pow2_powr: "pow2 e = 2 powr (of_int e)"
proof (cases "0 \<le> e")
  case True
  then have "2 powr (of_int e) = (2::real) powr (real (nat e))" by simp
  also have "\<dots> = 2 ^ nat e" by (simp add: powr_realpow)
  finally show ?thesis using True by (simp add: pow2_def)
next
  case False
  then have "(2::real) powr (of_int e) = 2 powr (- real (nat (- e)))" by simp
  also have "\<dots> = 1 / 2 ^ nat (- e)"
    by (simp add: powr_minus powr_realpow inverse_eq_divide)
  finally show ?thesis using False by (simp add: pow2_def)
qed

lemma pow2_pos [simp]: "0 < pow2 e"
  by (simp add: pow2_powr)

lemma pow2_add: "pow2 (a + b) = pow2 a * pow2 b"
  by (simp add: pow2_powr powr_add)

lemma pow2_mono: "a \<le> b \<Longrightarrow> pow2 a \<le> pow2 b"
  by (simp add: pow2_powr)

lemma pow2_numeral [simp]: "pow2 (numeral n) = 2 ^ numeral n" "pow2 0 = 1" "pow2 1 = 2"
  by (simp_all add: pow2_def)

lemma floor_log_bounds:
  assumes "0 < x"
  shows "pow2 \<lfloor>log 2 x\<rfloor> \<le> x" and "x < pow2 (\<lfloor>log 2 x\<rfloor> + 1)"
  using floor_log_eq_powr_iff [of x 2 "\<lfloor>log 2 x\<rfloor>"] assms by (simp_all add: pow2_powr)

lemma floor_log_eq:
  assumes "0 < x" and "pow2 k \<le> x" and "x < pow2 (k + 1)"
  shows "\<lfloor>log 2 x\<rfloor> = k"
  using floor_log_eq_powr_iff [of x 2 k] assms by (simp add: pow2_powr)

lemma rne_bounds: "\<lfloor>y\<rfloor> \<le> rne y" "rne y \<le> \<lfloor>y\<rfloor> + 1"
  by (simp_all add: rne_def Let_def)

lemma rne_of_int [simp]: "rne (of_int n) = n"
  by (simp add: rne_def)

lemma rne_mono: "y \<le> z \<Longrightarrow> rne y \<le> rne z"
proof -
  assume yz: "y \<le> z"
  have fy: "\<lfloor>y\<rfloor> \<le> \<lfloor>z\<rfloor>" using yz by (rule floor_mono)
  show ?thesis
  proof (cases "\<lfloor>y\<rfloor> = \<lfloor>z\<rfloor>")
    case True
    then show ?thesis using yz by (auto simp: rne_def Let_def)
  next
    case False
    then have "\<lfloor>y\<rfloor> + 1 \<le> \<lfloor>z\<rfloor>" using fy by linarith
    then show ?thesis using rne_bounds(2) [of y] rne_bounds(1) [of z] by linarith
  qed
qed

text \<open>The positive part of the rounding.\<close>

lemma ulp_exp_abs [simp]: "ulp_exp \<bar>x\<bar> = ulp_exp x" "ulp_exp (- x) = ulp_exp x"
  by (simp_all add: ulp_exp_def)

lemma fl_zero [simp]: "fl 0 = 0"
  by (simp add: fl_def)

lemma fl_minus: "fl (- x) = - fl x"
  by (simp add: fl_def sgn_minus)

lemma fl_pos: "0 < x \<Longrightarrow> fl x = of_int (rne (x / pow2 (ulp_exp x))) * pow2 (ulp_exp x)"
  by (simp add: fl_def)

lemma scaled_bounds:
  assumes "0 < x"
  shows "x / pow2 (ulp_exp x) < 2 ^ 53"
    and "- 1022 \<le> \<lfloor>log 2 x\<rfloor> \<Longrightarrow> 2 ^ 52 \<le> x / pow2 (ulp_exp x)"
proof -
  define E where "E = max \<lfloor>log 2 x\<rfloor> (- 1022)"
  have u: "ulp_exp x = E - 52"
    using assms by (simp add: ulp_exp_def E_def)
  have "x < pow2 (\<lfloor>log 2 x\<rfloor> + 1)"
    using assms by (rule floor_log_bounds)
  also have "\<dots> \<le> pow2 (E + 1)"
    by (rule pow2_mono) (simp add: E_def)
  also have "\<dots> = pow2 (E - 52) * 2 ^ 53"
    using pow2_add [of "E - 52" 53] by (simp add: add.commute)
  finally show "x / pow2 (ulp_exp x) < 2 ^ 53"
    by (simp add: u pos_divide_less_eq mult.commute)
  assume n: "- 1022 \<le> \<lfloor>log 2 x\<rfloor>"
  then have e: "E = \<lfloor>log 2 x\<rfloor>" by (simp add: E_def)
  have "pow2 (E - 52) * 2 ^ 52 = pow2 E"
    using pow2_add [of "E - 52" 52] by simp
  also have "\<dots> \<le> x"
    unfolding e using assms by (rule floor_log_bounds)
  finally show "2 ^ 52 \<le> x / pow2 (ulp_exp x)"
    by (simp add: u pos_le_divide_eq mult.commute)
qed

lemma fl_pos_bounds:
  assumes "0 < x"
  shows "0 \<le> fl x" and "fl x \<le> pow2 (ulp_exp x + 53)"
    and "- 1022 \<le> \<lfloor>log 2 x\<rfloor> \<Longrightarrow> pow2 \<lfloor>log 2 x\<rfloor> \<le> fl x"
proof -
  let ?u = "pow2 (ulp_exp x)"
  have "0 \<le> x / ?u"
    using assms by (simp add: less_imp_le)
  then have "rne 0 \<le> rne (x / ?u)"
    by (rule rne_mono)
  then have m0: "0 \<le> rne (x / ?u)"
    using rne_of_int [of 0] by simp
  then show "0 \<le> fl x"
    using assms by (simp add: fl_pos less_imp_le)
  have "x / ?u \<le> of_int (2 ^ 53)"
    using scaled_bounds(1) [OF assms] by simp
  then have "rne (x / ?u) \<le> rne (of_int (2 ^ 53))"
    by (rule rne_mono)
  then have "rne (x / ?u) \<le> 2 ^ 53"
    by (simp only: rne_of_int)
  then have "real_of_int (rne (x / ?u)) \<le> 2 ^ 53"
    by (metis of_int_le_iff of_int_numeral of_int_power)
  then have "fl x \<le> 2 ^ 53 * ?u"
    using assms by (simp add: fl_pos)
  also have "\<dots> = pow2 (ulp_exp x + 53)"
    using pow2_add [of "ulp_exp x" 53] by simp
  finally show "fl x \<le> pow2 (ulp_exp x + 53)" .
  assume n: "- 1022 \<le> \<lfloor>log 2 x\<rfloor>"
  have "of_int (2 ^ 52) \<le> x / ?u"
    using scaled_bounds(2) [OF assms n] by simp
  then have "rne (of_int (2 ^ 52)) \<le> rne (x / ?u)"
    by (rule rne_mono)
  then have "2 ^ 52 \<le> rne (x / ?u)"
    by (simp only: rne_of_int)
  then have "2 ^ 52 \<le> real_of_int (rne (x / ?u))"
    by (metis of_int_le_iff of_int_numeral of_int_power)
  then have "2 ^ 52 * ?u \<le> fl x"
    using assms by (simp add: fl_pos)
  moreover have "2 ^ 52 * ?u = pow2 \<lfloor>log 2 x\<rfloor>"
    using pow2_add [of "ulp_exp x" 52] n assms by (simp add: ulp_exp_def)
  ultimately show "pow2 \<lfloor>log 2 x\<rfloor> \<le> fl x" by simp
qed

lemma fl_pos_mono:
  assumes "0 < x" and "x \<le> y"
  shows "fl x \<le> fl y"
proof -
  have y: "0 < y" using assms by simp
  have l: "\<lfloor>log 2 x\<rfloor> \<le> \<lfloor>log 2 y\<rfloor>"
    using assms by (intro floor_mono log_mono) simp_all
  then have le: "ulp_exp x \<le> ulp_exp y"
    using assms y by (simp add: ulp_exp_def)
  show ?thesis
  proof (cases "ulp_exp x = ulp_exp y")
    case True
    have "x / pow2 (ulp_exp y) \<le> y / pow2 (ulp_exp y)"
      using assms(2) by (rule divide_right_mono) (simp add: less_imp_le)
    then have "rne (x / pow2 (ulp_exp y)) \<le> rne (y / pow2 (ulp_exp y))"
      by (rule rne_mono)
    then show ?thesis
      using assms y True by (simp add: fl_pos)
  next
    case False
    then have lt: "ulp_exp x < ulp_exp y" using le by simp
    then have "\<lfloor>log 2 x\<rfloor> < max \<lfloor>log 2 y\<rfloor> (- 1022) \<and> - 1022 < max \<lfloor>log 2 y\<rfloor> (- 1022)"
      using y assms by (simp add: ulp_exp_def)
    then have n: "- 1022 \<le> \<lfloor>log 2 y\<rfloor>"
      by linarith
    then have e: "ulp_exp y = \<lfloor>log 2 y\<rfloor> - 52"
      using y by (simp add: ulp_exp_def)
    have "fl x \<le> pow2 (ulp_exp x + 53)"
      using assms(1) by (rule fl_pos_bounds)
    also have "\<dots> \<le> pow2 \<lfloor>log 2 y\<rfloor>"
      by (rule pow2_mono) (use lt e in simp)
    also have "\<dots> \<le> fl y"
      using y n by (rule fl_pos_bounds)
    finally show ?thesis .
  qed
qed

lemma fl_mono: "x \<le> y \<Longrightarrow> fl x \<le> fl y"
proof -
  assume xy: "x \<le> y"
  consider "0 < x" | "x \<le> 0" "0 \<le> y" | "y < 0" by linarith
  then show ?thesis
  proof cases
    case 1
    then show ?thesis using xy by (rule fl_pos_mono)
  next
    case 2
    have "fl x \<le> 0"
    proof (cases "x = 0")
      case False
      then have "0 \<le> fl (- x)" using 2 by (intro fl_pos_bounds) simp
      then show ?thesis by (simp add: fl_minus)
    qed simp
    moreover have "0 \<le> fl y"
    proof (cases "y = 0")
      case False
      then show ?thesis using 2 by (intro fl_pos_bounds) simp
    qed simp
    ultimately show ?thesis by simp
  next
    case 3
    then have "fl (- y) \<le> fl (- x)" using xy by (intro fl_pos_mono) simp_all
    then show ?thesis by (simp add: fl_minus)
  qed
qed


lemma floor_log_less:
  assumes "0 < y" and "y < pow2 k"
  shows "\<lfloor>log 2 y\<rfloor> < k"
proof (rule ccontr)
  assume "\<not> \<lfloor>log 2 y\<rfloor> < k"
  then have "pow2 k \<le> pow2 \<lfloor>log 2 y\<rfloor>"
    by (intro pow2_mono) simp
  also have "\<dots> \<le> y"
    using assms(1) by (rule floor_log_bounds)
  finally show False using assms(2) by simp
qed

lemma floor_log_ge:
  assumes "0 < y" and "pow2 k \<le> y"
  shows "k \<le> \<lfloor>log 2 y\<rfloor>"
proof (rule ccontr)
  assume "\<not> k \<le> \<lfloor>log 2 y\<rfloor>"
  then have "pow2 (\<lfloor>log 2 y\<rfloor> + 1) \<le> pow2 k"
    by (intro pow2_mono) simp
  moreover have "y < pow2 (\<lfloor>log 2 y\<rfloor> + 1)"
    using assms(1) by (rule floor_log_bounds)
  ultimately show False using assms(2) by simp
qed

text \<open>A mantissa of at most 53 bits at an exponent of at least \<open>-1074\<close> is not rounded.\<close>

lemma fl_mantissa_lt:
  assumes "0 < n" and "n < 2 ^ 53" and "- 1074 \<le> k"
  shows "fl (of_int n * pow2 k) = of_int n * pow2 k"
proof -
  define x where "x = real_of_int n * pow2 k"
  have x: "0 < x" using assms(1) by (simp add: x_def)
  have "real_of_int n < 2 ^ 53"
    using assms(2) by (metis of_int_less_iff of_int_numeral of_int_power)
  then have "x < 2 ^ 53 * pow2 k"
    by (simp add: x_def)
  also have "\<dots> = pow2 (k + 53)"
    using pow2_add [of k 53] by simp
  finally have "\<lfloor>log 2 x\<rfloor> < k + 53"
    using x by (intro floor_log_less)
  then have u: "ulp_exp x \<le> k"
    using x assms(3) by (simp add: ulp_exp_def)
  define d where "d = nat (k - ulp_exp x)"
  define u where "u = pow2 (ulp_exp x)"
  have up: "0 < u" by (simp add: u_def)
  have "pow2 k = u * pow2 (int d)"
    using u pow2_add [of "ulp_exp x" "int d"] by (simp add: d_def u_def)
  also have "pow2 (int d) = 2 ^ d"
    by (simp add: pow2_def)
  finally have pk: "pow2 k = u * 2 ^ d" .
  have "x / u = real_of_int n * 2 ^ d"
    unfolding x_def pk using up by simp
  also have "\<dots> = of_int (n * 2 ^ d)"
    by simp
  finally have "rne (x / u) = n * 2 ^ d"
    by (simp only: rne_of_int)
  then have "fl x = of_int (n * 2 ^ d) * u"
    using x by (simp only: fl_pos u_def)
  also have "\<dots> = x"
    unfolding x_def pk by simp
  finally show ?thesis by (simp add: x_def)
qed

lemma fl_mantissa:
  assumes "\<bar>n\<bar> \<le> 2 ^ 53" and "- 1074 \<le> k"
  shows "fl (of_int n * pow2 k) = of_int n * pow2 k"
proof -
  have pos: "fl (of_int m * pow2 k) = of_int m * pow2 k" if "0 < m" "m \<le> 2 ^ 53" for m
  proof (cases "m = 2 ^ 53")
    case True
    have "of_int m * pow2 k = of_int (2 ^ 52) * pow2 (k + 1)"
      using pow2_add [of k 1] by (simp add: True)
    moreover have "fl (of_int (2 ^ 52) * pow2 (k + 1)) = of_int (2 ^ 52) * pow2 (k + 1)"
      using assms(2) by (intro fl_mantissa_lt) simp_all
    ultimately show ?thesis by simp
  next
    case False
    then show ?thesis using that assms(2) by (intro fl_mantissa_lt) simp_all
  qed
  consider "0 < n" | "n = 0" | "n < 0" by linarith
  then show ?thesis
  proof cases
    case 1
    then show ?thesis using assms(1) by (intro pos) simp_all
  next
    case 2
    then show ?thesis by simp
  next
    case 3
    then have "fl (of_int (- n) * pow2 k) = of_int (- n) * pow2 k"
      using assms(1) by (intro pos) simp_all
    then show ?thesis
      using fl_minus [of "of_int n * pow2 k"] by simp
  qed
qed

lemma fl_fl [simp]: "fl (fl x) = fl x"
proof -
  have pos: "fl (fl x) = fl x" if x: "0 < x" for x
  proof -
    define m where "m = rne (x / pow2 (ulp_exp x))"
    have y: "fl x = of_int m * pow2 (ulp_exp x)"
      using x by (simp add: fl_pos m_def)
    have "0 \<le> x / pow2 (ulp_exp x)"
      using x by (simp add: less_imp_le)
    then have "rne (of_int 0) \<le> m"
      unfolding m_def by (intro rne_mono) simp
    then have m0: "0 \<le> m" by (simp only: rne_of_int)
    have "x / pow2 (ulp_exp x) \<le> of_int (2 ^ 53)"
      using scaled_bounds(1) [OF x] by simp
    then have "m \<le> rne (of_int (2 ^ 53))"
      unfolding m_def by (rule rne_mono)
    then have m1: "m \<le> 2 ^ 53" by (simp only: rne_of_int)
    have "- 1074 \<le> ulp_exp x"
      by (simp add: ulp_exp_def)
    then show ?thesis
      unfolding y using m0 m1 by (intro fl_mantissa) simp_all
  qed
  consider "0 < x" | "x = 0" | "x < 0" by linarith
  then show ?thesis
  proof cases
    case 1
    then show ?thesis by (rule pos)
  next
    case 2
    then show ?thesis by simp
  next
    case 3
    then have "fl (fl (- x)) = fl (- x)" by (intro pos) simp
    then show ?thesis by (simp add: fl_minus)
  qed
qed

lemma fl_eval:
  assumes "0 < x" and "pow2 E \<le> x" and "x < pow2 (E + 1)" and "- 1022 \<le> E"
  shows "fl x = of_int (rne (x / pow2 (E - 52))) * pow2 (E - 52)"
proof -
  have "\<lfloor>log 2 x\<rfloor> = E"
    using assms(1-3) by (rule floor_log_eq)
  then have "ulp_exp x = E - 52"
    using assms(1,4) by (simp add: ulp_exp_def)
  then show ?thesis
    using assms(1) by (simp add: fl_pos)
qed

lemma fl_int: "\<bar>n\<bar> \<le> 2 ^ 53 \<Longrightarrow> fl (of_int n) = of_int n"
  using fl_mantissa [of n 0] by simp

lemma max_double_pos: "0 < max_double"
  by (simp add: max_double_def)

lemma is_double_0 [simp]: "is_double 0"
  using max_double_pos by (simp add: is_double_def)

lemma is_double_minus [simp]: "is_double (- a) = is_double a"
  by (auto simp: is_double_def fl_minus)

lemma rnd_double: "rnd x = Fin a \<Longrightarrow> is_double a"
  by (auto simp: rnd_def is_double_def split: if_splits)

lemma rnd_exact: "is_double a \<Longrightarrow> rnd a = Fin a"
  by (auto simp: rnd_def is_double_def)

lemma fadd_double: "fadd x y = Fin a \<Longrightarrow> is_double a"
  by (cases x; cases y) (auto dest: rnd_double)

lemma rnd_le:
  assumes "is_double a" and "x \<le> a"
  shows "rnd x = NInf \<or> (\<exists>b. rnd x = Fin b \<and> b \<le> a \<and> is_double b)"
proof -
  have "fl x \<le> fl a" using assms(2) by (rule fl_mono)
  then have le: "fl x \<le> a" using assms(1) by (simp add: is_double_def)
  have "\<bar>a\<bar> \<le> max_double" using assms(1) by (simp add: is_double_def)
  then have "a \<le> max_double" by linarith
  with le have "\<not> max_double < fl x" by linarith
  then show ?thesis
    using le by (auto simp: rnd_def is_double_def)
qed

lemma fle_refl: "tracked_ok c \<Longrightarrow> fle c c"
  by (auto simp: tracked_ok_def fle_def)

lemma fle_trans: "fle a b \<Longrightarrow> fle b c \<Longrightarrow> fle a c"
  by (cases a; cases b; cases c) (auto simp: fle_def)

lemma tracked_add:
  assumes "tracked_ok c" and "fless delta (Fin 0)"
  shows "tracked_ok (fadd c delta)" and "fle (fadd c delta) c"
proof -
  have "tracked_ok (fadd c delta) \<and> fle (fadd c delta) c"
  proof (cases delta)
    case (Fin d)
    with assms(2) have d: "d < 0" by simp
    show ?thesis
    proof (cases c)
      case c: (Fin a)
      with assms(1) have a: "is_double a" by (simp add: tracked_ok_def)
      from rnd_le [OF a, of "a + d"] d show ?thesis
        by (auto simp: Fin c tracked_ok_def fle_def)
    qed (use assms(1) Fin in \<open>auto simp: tracked_ok_def fle_def\<close>)
  next
    case NInf
    with assms(1) show ?thesis
      by (cases c) (auto simp: tracked_ok_def fle_def)
  qed (use assms(2) in auto)
  then show "tracked_ok (fadd c delta)" and "fle (fadd c delta) c" by simp_all
qed

lemma foldl_fadd_double: "foldl fadd (Fin 0) xs = Fin a \<Longrightarrow> is_double a"
proof (cases xs rule: rev_cases)
  case Nil
  then show "foldl fadd (Fin 0) xs = Fin a \<Longrightarrow> is_double a" by simp
next
  case (snoc ys y)
  then show "foldl fadd (Fin 0) xs = Fin a \<Longrightarrow> is_double a"
    by (auto dest: fadd_double)
qed

lemma is_double_mantissa:
  assumes "\<bar>n\<bar> \<le> 2 ^ 53 - 1" and "- 1074 \<le> k" and "k \<le> 971"
  shows "is_double (of_int n * pow2 k)"
proof -
  have "fl (of_int n * pow2 k) = of_int n * pow2 k"
    using assms by (intro fl_mantissa) simp_all
  moreover have "\<bar>real_of_int n * pow2 k\<bar> \<le> max_double"
  proof -
    have "\<bar>real_of_int n\<bar> \<le> 2 ^ 53 - 1"
    proof -
      have "real_of_int \<bar>n\<bar> \<le> real_of_int (2 ^ 53 - 1)"
        using assms(1) by (simp only: of_int_le_iff)
      then show ?thesis by simp
    qed
    moreover have "pow2 k \<le> pow2 971"
      using assms(3) by (rule pow2_mono)
    ultimately have "\<bar>real_of_int n\<bar> * pow2 k \<le> (2 ^ 53 - 1) * pow2 971"
      by (intro mult_mono) (simp_all add: less_imp_le)
    moreover have "\<bar>pow2 k\<bar> = pow2 k"
      by (simp add: less_imp_le)
    ultimately show ?thesis
      by (simp add: max_double_def abs_mult)
  qed
  ultimately show ?thesis by (simp add: is_double_def)
qed

lemma is_double_int: "\<bar>n\<bar> \<le> 2 ^ 53 - 1 \<Longrightarrow> is_double (of_int n)"
  using is_double_mantissa [of n 0] by simp

lemma rnd_eval:
  assumes "0 < x" and "pow2 E \<le> x" and "x < pow2 (E + 1)" and "- 1022 \<le> E" and "E \<le> 1022"
  shows "rnd x = Fin (of_int (rne (x / pow2 (E - 52))) * pow2 (E - 52))"
proof -
  have f: "fl x = of_int (rne (x / pow2 (E - 52))) * pow2 (E - 52)"
    using assms(1-4) by (rule fl_eval)
  have "0 \<le> fl x"
    using assms(1) by (rule fl_pos_bounds)
  moreover have "fl x \<le> max_double"
  proof -
    have "ulp_exp x = E - 52"
      using floor_log_eq [OF assms(1-3)] assms(1,4) by (simp add: ulp_exp_def)
    then have "fl x \<le> pow2 (E + 1)"
      using fl_pos_bounds(2) [OF assms(1)] by (simp add: add.commute)
    also have "\<dots> \<le> pow2 1023"
      by (rule pow2_mono) (use assms(5) in simp)
    also have "\<dots> \<le> max_double"
      by (simp add: max_double_def)
    finally show ?thesis .
  qed
  ultimately show ?thesis
    using max_double_pos by (simp add: rnd_def f)
qed

lemma py_sum_double: "py_sum xs = Fin a \<Longrightarrow> is_double a"
  unfolding py_sum_def by (rule foldl_fadd_double)

section \<open>The tracked cost of local search\<close>

lemma heap_pure_travel_cost_fp [simp]: "heap_pure (travel_cost_fp c r)"
  by (auto simp: travel_cost_fp_def Let_def intro!: heap_pure_bind)

lemma heap_pure_room_travel_cost_fp [simp]: "heap_pure (room_travel_cost_fp c r)"
  using heap_pure_travel_cost_fp by (auto simp: heap_pure_def room_travel_cost_fp_def)

lemma heap_pure_cost_of_alloc_fp [simp]: "heap_pure (cost_of_alloc_fp courses rooms d)"
  unfolding cost_of_alloc_fp_def
  by (intro heap_pure_bind heap_pure_mapM) simp_all

lemma ls_step_fp_cases:
  assumes "ls_step_fp courses rooms cur cost w = Inr (cost', w')"
  obtains (skip) "same_heap w w'" and "cost' = cost"
  | (swap) c1 c2 k1 k2 r1 r2 t12 t21 t11 t22 w1 w2 w3 w4 w5 where
      "random_sample courses 2 w = Inr ([c1, c2], w1)"
      "timeslot c1 = timeslot c2"
      "dict_heap w cur (course_id c1) = Some k1" "rooms k1 = Some r1"
      "dict_heap w cur (course_id c2) = Some k2" "rooms k2 = Some r2"
      "course_size c2 \<le> capacity (room_heap w r1)" "course_size c1 \<le> capacity (room_heap w r2)"
      "room_travel_cost_fp c1 r2 w1 = Inr (t12, w2)" "room_travel_cost_fp c2 r1 w2 = Inr (t21, w3)"
      "room_travel_cost_fp c1 r1 w3 = Inr (t11, w4)" "room_travel_cost_fp c2 r2 w4 = Inr (t22, w5)"
      "fless (fsub (fsub (fadd t12 t21) t11) t22) (Fin 0)"
      "cost' = fadd cost (fsub (fsub (fadd t12 t21) t11) t22)"
      "w' = w5\<lparr>dict_heap := (dict_heap w5)(cur :=
               swap_entries (dict_heap w cur) c1 c2 (room_id (room_heap w r1)) (room_id (room_heap w r2)))\<rparr>"
      "same_heap w w5"
proof -
  from assms obtain pair w1 where s: "random_sample courses 2 w = Inr (pair, w1)"
    by (auto simp: ls_step_fp_def bind_Inr_iff)
  have h1: "same_heap w w1"
    using s heap_pure_random_sample by (rule heap_pureD [rotated])
  from assms s obtain c1 c2 where pair: "pair = [c1, c2]"
    by (auto simp: ls_step_fp_def bind_def split: list.splits)
  show ?thesis
  proof (cases "timeslot c1 = timeslot c2")
    case False
    then have "cost' = cost" "w' = w1"
      using assms s pair by (auto simp: ls_step_fp_def bind_def)
    then show ?thesis using skip h1 by simp
  next
    case ts: True
    from assms s pair ts obtain k1 r1 k2 r2 where
      k: "dict_heap w1 cur (course_id c1) = Some k1" "rooms k1 = Some r1"
         "dict_heap w1 cur (course_id c2) = Some k2" "rooms k2 = Some r2"
      by (auto simp: ls_step_fp_def bind_def dict_get_def py_get_def split: option.splits)
    let ?body = "bind (room_travel_cost_fp c1 r2) (\<lambda>t12. bind (room_travel_cost_fp c2 r1) (\<lambda>t21.
               bind (room_travel_cost_fp c1 r1) (\<lambda>t11. bind (room_travel_cost_fp c2 r2) (\<lambda>t22.
               let delta = fsub (fsub (fadd t12 t21) t11) t22 in
               if fless delta (Fin 0) then
                 bind (get_room_id r2) (\<lambda>id2. bind (get_room_id r1) (\<lambda>id1.
                 bind (dict_set cur (course_id c1) id2) (\<lambda>_.
                 bind (dict_set cur (course_id c2) id1) (\<lambda>_.
                 ret (fadd cost delta)))))
               else ret cost))))"
    have step: "ls_step_fp courses rooms cur cost w =
      (if capacity (room_heap w1 r1) < course_size c2 \<or> capacity (room_heap w1 r2) < course_size c1
       then Inr (cost, w1) else ?body w1)"
      using s pair ts k
      by (simp add: ls_step_fp_def bind_def dict_get_def py_get_def get_capacity_def)
    show ?thesis
    proof (cases "capacity (room_heap w1 r1) < course_size c2 \<or> capacity (room_heap w1 r2) < course_size c1")
      case True
      then have "cost' = cost" "w' = w1"
        using assms step by auto
      then show ?thesis using skip h1 by simp
    next
      case cap: False
      then have b: "?body w1 = Inr (cost', w')"
        using assms step by simp
      then obtain t12 w2 t21 w3 t11 w4 t22 w5 where
        t: "room_travel_cost_fp c1 r2 w1 = Inr (t12, w2)" "room_travel_cost_fp c2 r1 w2 = Inr (t21, w3)"
           "room_travel_cost_fp c1 r1 w3 = Inr (t11, w4)" "room_travel_cost_fp c2 r2 w4 = Inr (t22, w5)"
        and rest: "(let delta = fsub (fsub (fadd t12 t21) t11) t22 in
               if fless delta (Fin 0) then
                 bind (get_room_id r2) (\<lambda>id2. bind (get_room_id r1) (\<lambda>id1.
                 bind (dict_set cur (course_id c1) id2) (\<lambda>_.
                 bind (dict_set cur (course_id c2) id1) (\<lambda>_.
                 ret (fadd cost delta)))))
               else ret cost) w5 = Inr (cost', w')"
        unfolding bind_Inr_iff by blast
      have h2: "same_heap w w2"
        using h1 heap_pureD [OF heap_pure_room_travel_cost_fp t(1)] by (rule same_heap_trans)
      have h3: "same_heap w w3"
        using h2 heap_pureD [OF heap_pure_room_travel_cost_fp t(2)] by (rule same_heap_trans)
      have h4: "same_heap w w4"
        using h3 heap_pureD [OF heap_pure_room_travel_cost_fp t(3)] by (rule same_heap_trans)
      have h5: "same_heap w w5"
        using h4 heap_pureD [OF heap_pure_room_travel_cost_fp t(4)] by (rule same_heap_trans)
      show ?thesis
      proof (cases "fless (fsub (fsub (fadd t12 t21) t11) t22) (Fin 0)")
        case False
        then have "cost' = cost" "w' = w5"
          using rest by (auto simp: Let_def)
        then show ?thesis using skip h5 by simp
      next
        case True
        then have "cost' = fadd cost (fsub (fsub (fadd t12 t21) t11) t22)"
          and "w' = w5\<lparr>dict_heap := (dict_heap w5)(cur :=
               swap_entries (dict_heap w cur) c1 c2 (room_id (room_heap w r1)) (room_id (room_heap w r2)))\<rparr>"
          using rest h5
          by (auto simp: Let_def bind_def get_room_id_def dict_set_def swap_entries_def same_heap_def)
        then show ?thesis
          using swap [OF s [unfolded pair] ts _ k(2) _ k(4) _ _ t True _ _ h5] k(1,3) cap h1
          by (auto simp: same_heap_def)
      qed
    qed
  qed
qed

lemma ls_step_fp_tracked:
  assumes "ls_step_fp courses rooms cur cost w = Inr (cost', w')" and "tracked_ok cost"
  shows "tracked_ok cost'" and "fle cost' cost"
proof -
  from assms(1) have "tracked_ok cost' \<and> fle cost' cost"
  proof (cases rule: ls_step_fp_cases)
    case skip
    then show ?thesis using assms(2) by (simp add: fle_refl)
  next
    case (swap c1 c2 k1 k2 r1 r2 t12 t21 t11 t22 w1 w2 w3 w4 w5)
    from tracked_add [OF assms(2) swap(13)] show ?thesis
      by (simp add: swap(14))
  qed
  then show "tracked_ok cost'" and "fle cost' cost" by simp_all
qed

lemma ls_loop_fp_tracked:
  assumes "ls_loop_fp courses rooms cur n cost w = Inr (cost', w')" and "tracked_ok cost"
  shows "tracked_ok cost' \<and> fle cost' cost"
  using assms
proof (induction n arbitrary: cost w)
  case 0
  then show ?case by (simp add: fle_refl)
next
  case (Suc n)
  then obtain c1 w1 where s: "ls_step_fp courses rooms cur cost w = Inr (c1, w1)"
    and l: "ls_loop_fp courses rooms cur n c1 w1 = Inr (cost', w')"
    by (auto simp: bind_Inr_iff)
  from ls_step_fp_tracked [OF s Suc.prems(2)] have 1: "tracked_ok c1" "fle c1 cost" .
  from Suc.IH [OF l 1(1)] 1(2) show ?case
    by (auto intro: fle_trans)
qed

lemma ls_run_fp_tracked:
  assumes "ls_run_fp a courses rooms max_iter w = Inr ((cur, c0, cN), w')" and "c0 = Fin x"
  shows "tracked_ok cN \<and> fle cN c0"
proof -
  from assms(1) obtain w1 w2 where 2: "cost_of_alloc_fp courses rooms cur w1 = Inr (c0, w2)"
    and 3: "ls_loop_fp courses rooms cur (nat max_iter) c0 w2 = Inr (cN, w')"
    by (auto simp: ls_run_fp_def bind_Inr_iff)
  from 2 obtain costs where "c0 = py_sum costs"
    by (auto simp: cost_of_alloc_fp_def bind_Inr_iff)
  with assms(2) have "py_sum costs = Fin x"
    by simp
  then have "is_double x"
    by (rule py_sum_double)
  then have "tracked_ok c0"
    using assms(2) by (simp add: tracked_ok_def)
  with 3 show ?thesis by (rule ls_loop_fp_tracked)
qed

lemma local_search_fp_Inr:
  "local_search_fp a courses rooms max_iter w = Inr (cur, w')
   \<longleftrightarrow> (\<exists>c0 cN. ls_run_fp a courses rooms max_iter w = Inr ((cur, c0, cN), w'))"
  by (auto simp: local_search_fp_def bind_Inr_iff)


lemma ls_step_fp_no_swap:
  assumes "random_sample courses 2 w = Inr ([c1, c2], w1)" and "timeslot c1 = timeslot c2"
    and "dict_heap w cur (course_id c1) = Some k1" and "rooms k1 = Some r1"
    and "dict_heap w cur (course_id c2) = Some k2" and "rooms k2 = Some r2"
    and "course_size c2 \<le> capacity (room_heap w r1)" and "course_size c1 \<le> capacity (room_heap w r2)"
    and "room_travel_cost_fp c1 r2 w1 = Inr (t12, w2)" and "room_travel_cost_fp c2 r1 w2 = Inr (t21, w3)"
    and "room_travel_cost_fp c1 r1 w3 = Inr (t11, w4)" and "room_travel_cost_fp c2 r2 w4 = Inr (t22, w5)"
    and "\<not> fless (fsub (fsub (fadd t12 t21) t11) t22) (Fin 0)"
  shows "ls_step_fp courses rooms cur cost w = Inr (cost, w5)"
proof -
  have "same_heap w w1"
    using assms(1) heap_pure_random_sample by (rule heap_pureD [rotated])
  then have "dict_heap w1 = dict_heap w" "room_heap w1 = room_heap w"
    by (simp_all add: same_heap_def)
  then show ?thesis
    using assms
    by (simp add: ls_step_fp_def bind_def dict_get_def py_get_def get_capacity_def)
qed

lemma fle_not_fless: "fle x y \<Longrightarrow> \<not> fless y x"
  by (cases x; cases y) (auto simp: fle_def)

lemma ls_run_fp_never_greater:
  assumes "ls_run_fp a courses rooms max_iter w = Inr ((cur, c0, cN), w')"
  shows "\<not> fless c0 cN"
proof (cases "tracked_ok c0")
  case True
  from assms obtain w2 where "ls_loop_fp courses rooms cur (nat max_iter) c0 w2 = Inr (cN, w')"
    by (auto simp: ls_run_fp_def bind_Inr_iff)
  from ls_loop_fp_tracked [OF this True] show ?thesis
    by (simp add: fle_not_fless)
next
  case False
  from assms obtain costs where c0: "c0 = py_sum costs"
    by (auto simp: ls_run_fp_def cost_of_alloc_fp_def bind_Inr_iff)
  have "c0 = PInf \<or> c0 = NaN"
  proof (cases c0)
    case (Fin x)
    with c0 have "is_double x"
      by (auto intro: py_sum_double)
    with Fin False show ?thesis
      by (simp add: tracked_ok_def)
  qed (use False in \<open>simp_all add: tracked_ok_def\<close>)
  then show ?thesis
    by (cases cN) auto
qed

section \<open>Sums of doubles that round\<close>

lemma euclidean_fp_axis:
  "euclidean_fp (a, 0) (b, 0) = (case fsub (Fin a) (Fin b) of Fin d \<Rightarrow> rnd \<bar>d\<bar> | _ \<Rightarrow> PInf)"
  by (simp add: euclidean_fp_def fsub_def rnd_exact split: double.splits)

lemma euclidean_axis: "euclidean (a, 0) (b, 0) = \<bar>a - b\<bar>"
  by (simp add: euclidean_def)

lemma rnd_small:
  "rnd 0 = Fin 0" "rnd 1 = Fin 1" "rnd 2 = Fin 2" "rnd 4 = Fin 4"
  "rnd (- 1) = Fin (- 1)" "rnd (- 2) = Fin (- 2)" "rnd (- 4) = Fin (- 4)"
  using is_double_int [of 1] is_double_int [of 2] is_double_int [of 4]
  by (simp_all add: rnd_exact)

lemma rnd_large:
  "rnd 9007199254740990 = Fin 9007199254740990" "rnd 9007199254740991 = Fin 9007199254740991"
  "rnd 9007199254740992 = Fin 9007199254740992" "rnd 9007199254740994 = Fin 9007199254740994"
  "rnd 9007199254740998 = Fin 9007199254740998"
  using is_double_int [of 9007199254740990] is_double_int [of 9007199254740991]
    is_double_mantissa [of 4503599627370496 1] is_double_mantissa [of 4503599627370497 1]
    is_double_mantissa [of 4503599627370499 1]
  by (simp_all add: rnd_exact)

lemma rnd_ties:
  "rnd 9007199254740993 = Fin 9007199254740992"
  "rnd 18014398509481986 = Fin 18014398509481984"
  "rnd 18014398509481987 = Fin 18014398509481988"
  "rnd 18014398509481989 = Fin 18014398509481988"
  "rnd 18014398509481990 = Fin 18014398509481992"
  using rnd_eval [of 9007199254740993 53] rnd_eval [of 18014398509481986 54]
    rnd_eval [of 18014398509481987 54] rnd_eval [of 18014398509481989 54]
    rnd_eval [of 18014398509481990 54]
  by (simp_all add: rne_def)

text \<open>
  Over the doubles too, the cost of a course with at most 30 students is the sum of the
  teacher's distance and the students' distances, with no draw: the scale factor is
  \<open>1.0\<close>.
\<close>

lemma fmul_one:
  assumes "\<And>a. x = Fin a \<Longrightarrow> is_double a"
  shows "fmul x (Fin 1) = x"
  using assms by (cases x) (simp_all add: rnd_exact)

lemma travel_cost_fp_small:
  assumes "length (students c) \<le> 30"
  shows "travel_cost_fp c room w =
    (if students c = [] then Inl ZeroDivisionError
     else Inr (fadd (euclidean_fp (person_coord (teacher c)) (room_coord room))
                 (py_sum (map (\<lambda>s. euclidean_fp (person_coord s) (room_coord room)) (students c))),
               w))"
proof (cases "students c = []")
  case True
  then show ?thesis by (simp add: travel_cost_fp_def)
next
  case False
  define ds where "ds = map (\<lambda>s. euclidean_fp (person_coord s) (room_coord room)) (students c)"
  have "fmul (py_sum ds) (Fin 1) = py_sum ds"
    by (rule fmul_one) (rule py_sum_double)
  moreover have "rnd (real (length (students c)) / real (length (students c))) = Fin 1"
    using False by (simp add: rnd_small)
  ultimately show ?thesis
    using assms False by (simp add: travel_cost_fp_def Let_def min_def ds_def)
qed

lemma cx_fields:
  "course_id cx_c0 = ''C0''" "course_id cx_c1 = ''C1''" "course_id cx_c2 = ''C2''"
  "timeslot cx_c0 = 1" "timeslot cx_c1 = 0" "timeslot cx_c2 = 0"
  "course_size cx_c0 = 1" "course_size cx_c1 = 1" "course_size cx_c2 = 1"
  "room_id cx_r1 = ''R1''" "room_id cx_r2 = ''R2''" "capacity cx_r1 = 10" "capacity cx_r2 = 10"
  by (simp_all add: cx_c0_def cx_c1_def cx_c2_def cx_r1_def cx_r2_def)

lemma cx_rooms_simps: "cx_rooms ''R1'' = Some 0" "cx_rooms ''R2'' = Some 1"
  by (simp_all add: cx_rooms_def)

lemma cx_world_simps:
  "room_heap cx_world 0 = cx_r1" "room_heap cx_world (Suc 0) = cx_r2"
  "glob cx_world = (\<lambda>_. 1)" "next_dict cx_world = 1"
  by (simp_all add: cx_world_def)

lemma cx_travel_costs_fp:
  "travel_cost_fp cx_c0 cx_r1 w = Inr (Fin 4, w)"
  "travel_cost_fp cx_c1 cx_r1 w = Inr (Fin 9007199254740994, w)"
  "travel_cost_fp cx_c1 cx_r2 w = Inr (Fin 9007199254740994, w)"
  "travel_cost_fp cx_c2 cx_r1 w = Inr (Fin 9007199254740992, w)"
  "travel_cost_fp cx_c2 cx_r2 w = Inr (Fin 9007199254740991, w)"
  by (simp_all add: travel_cost_fp_def cx_c0_def cx_c1_def cx_c2_def cx_r1_def cx_r2_def
      euclidean_fp_axis py_sum_def fsub_def rnd_small rnd_large rnd_ties)

lemma cx_travel_costs:
  "travel_cost cx_c0 cx_r1 w = Inr (4, w)"
  "travel_cost cx_c1 cx_r1 w = Inr (9007199254740994, w)"
  "travel_cost cx_c1 cx_r2 w = Inr (9007199254740994, w)"
  "travel_cost cx_c2 cx_r1 w = Inr (9007199254740993, w)"
  "travel_cost cx_c2 cx_r2 w = Inr (9007199254740991, w)"
  by (simp_all add: travel_cost_def cx_c0_def cx_c1_def cx_c2_def cx_r1_def cx_r2_def
      euclidean_axis)

lemma cx_room_costs:
  assumes "room_heap w = room_heap cx_world"
  shows "room_travel_cost_fp cx_c0 0 w = Inr (Fin 4, w)"
    "room_travel_cost_fp cx_c1 0 w = Inr (Fin 9007199254740994, w)"
    "room_travel_cost_fp cx_c1 (Suc 0) w = Inr (Fin 9007199254740994, w)"
    "room_travel_cost_fp cx_c2 0 w = Inr (Fin 9007199254740992, w)"
    "room_travel_cost_fp cx_c2 (Suc 0) w = Inr (Fin 9007199254740991, w)"
    "room_travel_cost cx_c0 0 w = Inr (4, w)"
    "room_travel_cost cx_c1 0 w = Inr (9007199254740994, w)"
    "room_travel_cost cx_c1 (Suc 0) w = Inr (9007199254740994, w)"
    "room_travel_cost cx_c2 0 w = Inr (9007199254740993, w)"
    "room_travel_cost cx_c2 (Suc 0) w = Inr (9007199254740991, w)"
  using assms
  by (simp_all add: room_travel_cost_fp_def room_travel_cost_def cx_travel_costs_fp cx_travel_costs
      cx_world_def)

lemma cx_cost_before:
  "cost_of_alloc_fp [cx_c0, cx_c1, cx_c2] cx_rooms 0 cx_world = Inr (Fin 18014398509481988, cx_world)"
  "cost_of_alloc [cx_c0, cx_c1, cx_c2] cx_rooms 0 cx_world = Inr (18014398509481989, cx_world)"
  by (simp_all add: cost_of_alloc_fp_def cost_of_alloc_def bind_def dict_get_def py_get_def
      cx_fields cx_rooms_simps cx_room_costs py_sum_def rnd_small rnd_large rnd_ties cx_world_def)

lemma cx_cost_after:
  "cost_of_alloc_fp [cx_c0, cx_c1, cx_c2] cx_rooms 1 cx_swapped = Inr (Fin 18014398509481992, cx_swapped)"
  "cost_of_alloc [cx_c0, cx_c1, cx_c2] cx_rooms 1 cx_swapped = Inr (18014398509481991, cx_swapped)"
  by (simp_all add: cost_of_alloc_fp_def cost_of_alloc_def bind_def dict_get_def py_get_def
      cx_fields cx_rooms_simps cx_room_costs py_sum_def rnd_small rnd_large rnd_ties cx_world_def
      cx_swapped_def)

lemma cx_sample:
  assumes "glob w = (\<lambda>_. 1)"
  shows "random_sample [cx_c0, cx_c1, cx_c2] 2 w = Inr ([cx_c1, cx_c2], w)"
proof -
  have "w\<lparr>glob := \<lambda>n. glob w (Suc n)\<rparr> = w"
    using assms by simp
  then show ?thesis
    using assms by (simp add: bind_def draw_glob_def Let_def numeral_2_eq_2)
qed

lemma cx_ls_run:
  "ls_run_fp 0 [cx_c0, cx_c1, cx_c2] cx_rooms 1 cx_world
   = Inr ((1, Fin 18014398509481988, Fin 18014398509481988), cx_swapped)"
proof -
  define w1 where "w1 = cx_world\<lparr>dict_heap := (dict_heap cx_world)(1 := dict_heap cx_world 0),
                                 next_dict := 2\<rparr>"
  have w1: "room_heap w1 = room_heap cx_world" "glob w1 = (\<lambda>_. 1)"
    "dict_heap w1 (Suc 0) = [''C0'' \<mapsto> ''R1'', ''C1'' \<mapsto> ''R1'', ''C2'' \<mapsto> ''R2'']"
    "room_heap w1 0 = cx_r1" "room_heap w1 (Suc 0) = cx_r2"
    by (simp_all add: w1_def cx_world_def)
  have copy: "dict_copy 0 cx_world = Inr (1, w1)"
    by (simp add: dict_copy_def w1_def cx_world_def)
  have cost: "cost_of_alloc_fp [cx_c0, cx_c1, cx_c2] cx_rooms 1 w1 = Inr (Fin 18014398509481988, w1)"
    by (simp add: cost_of_alloc_fp_def bind_def dict_get_def py_get_def w1 cx_fields
        cx_rooms_simps cx_room_costs py_sum_def rnd_small rnd_large rnd_ties)
  have sample: "random_sample [cx_c0, cx_c1, cx_c2] 2 w1 = Inr ([cx_c1, cx_c2], w1)"
    using w1(2) by (rule cx_sample)
  have sw: "w1\<lparr>dict_heap := (dict_heap w1)(Suc 0 := [''C0'' \<mapsto> ''R1'', ''C1'' \<mapsto> ''R2'', ''C2'' \<mapsto> ''R1''])\<rparr>
      = cx_swapped"
    by (simp add: w1_def cx_swapped_def cx_world_def)
  have step: "ls_step_fp [cx_c0, cx_c1, cx_c2] cx_rooms 1 (Fin 18014398509481988) w1
      = Inr (Fin 18014398509481988, cx_swapped)"
    by (simp add: ls_step_fp_def bind_def sample dict_get_def dict_set_def py_get_def get_capacity_def
        get_room_id_def w1 cx_fields cx_rooms_simps cx_room_costs fsub_def rnd_small rnd_large
        rnd_ties cx_world_simps sw)
  show ?thesis
    using copy cost step by (simp add: ls_run_fp_def bind_def)
qed


section \<open>Local search on the example campus, over the doubles\<close>

lemma ex_twin_fields:
  "course_id ex_twin = ''A''" "timeslot ex_twin = 0" "course_size ex_twin = 30"
  by (simp_all add: ex_twin_def)

lemma ex_travel_costs_fp:
  "travel_cost_fp ex_a ex_r50 w = Inr (Fin 2, w)" "travel_cost_fp ex_a ex_r100 w = Inr (Fin 0, w)"
  "travel_cost_fp ex_b ex_r50 w = Inr (Fin 0, w)" "travel_cost_fp ex_b ex_r100 w = Inr (Fin 2, w)"
  "travel_cost_fp ex_twin ex_r50 w = Inr (Fin 0, w)"
  "travel_cost_fp ex_twin ex_r100 w = Inr (Fin 2, w)"
  by (simp_all add: travel_cost_fp_def ex_a_def ex_b_def ex_twin_def ex_r50_def ex_r100_def
      ex_near_def ex_far_def euclidean_fp_axis py_sum_def fsub_def rnd_small)

lemma ex_room_costs_fp:
  assumes "room_heap w = room_heap ex_campus"
  shows "room_travel_cost_fp ex_a 0 w = Inr (Fin 2, w)"
    "room_travel_cost_fp ex_a (Suc 0) w = Inr (Fin 0, w)"
    "room_travel_cost_fp ex_b 0 w = Inr (Fin 0, w)"
    "room_travel_cost_fp ex_b (Suc 0) w = Inr (Fin 2, w)"
    "room_travel_cost_fp ex_twin 0 w = Inr (Fin 0, w)"
    "room_travel_cost_fp ex_twin (Suc 0) w = Inr (Fin 2, w)"
  using assms by (simp_all add: room_travel_cost_fp_def ex_travel_costs_fp ex_campus_simps)

lemma ex_copied_simps:
  "room_heap ex_copied = room_heap ex_campus" "glob ex_copied = (\<lambda>_. 0)"
  "dict_heap ex_copied (Suc 0) = [''A'' \<mapsto> ''R50'', ''B'' \<mapsto> ''R100'']"
  by (simp_all add: ex_copied_def ex_campus_simps)

lemma ex_step_fp:
  "ls_step_fp [ex_a, ex_b] ex_rooms_by_id 1 (Fin 4) ex_copied = Inr (Fin 0, ex_swapped)"
proof -
  have sample: "random_sample [ex_a, ex_b] 2 ex_copied = Inr ([ex_a, ex_b], ex_copied)"
    using random_sample_zeros [of ex_copied 2 "[ex_a, ex_b]"] ex_copied_simps(2) by simp
  have sw: "ex_copied\<lparr>dict_heap := (dict_heap ex_copied)(Suc 0 := [''A'' \<mapsto> ''R100'', ''B'' \<mapsto> ''R50''])\<rparr>
      = ex_swapped"
    by (simp add: ex_copied_def ex_swapped_def ex_campus_def)
  show ?thesis
    by (simp add: ls_step_fp_def bind_def sample dict_get_def dict_set_def py_get_def get_capacity_def
        get_room_id_def ex_copied_simps ex_fields ex_rooms_by_id_simps ex_room_costs_fp
        ex_campus_simps fsub_def rnd_small sw)
qed

lemma ex_ls_run_fp:
  "ls_run_fp 0 [ex_a, ex_b] ex_rooms_by_id 1 ex_campus = Inr ((1, Fin 4, Fin 0), ex_swapped)"
proof -
  have copy: "dict_copy 0 ex_campus = Inr (1, ex_copied)"
    by (simp add: dict_copy_def ex_copied_def ex_campus_simps)
  have cost: "cost_of_alloc_fp [ex_a, ex_b] ex_rooms_by_id 1 ex_copied = Inr (Fin 4, ex_copied)"
    by (simp add: cost_of_alloc_fp_def bind_def dict_get_def py_get_def ex_copied_simps ex_fields
        ex_rooms_by_id_simps ex_room_costs_fp py_sum_def rnd_small)
  show ?thesis
    using copy cost ex_step_fp by (simp add: ls_run_fp_def bind_def)
qed

lemma ex_twin_sample:
  "random_sample [ex_twin, ex_b] 2 ex_campus = Inr ([ex_twin, ex_b], ex_campus)"
  using random_sample_zeros [of ex_campus 2 "[ex_twin, ex_b]"] ex_campus_simps(5) by simp

lemma ex_twin_step_fp:
  "ls_step_fp [ex_twin, ex_b] ex_rooms_by_id 0 (Fin 2) ex_campus = Inr (Fin 2, ex_campus)"
  by (simp add: ls_step_fp_def bind_def ex_twin_sample dict_get_def py_get_def get_capacity_def
      ex_twin_fields ex_fields ex_rooms_by_id_simps ex_room_costs_fp ex_campus_simps fsub_def
      rnd_small)

section \<open>The tracked cost does not increase; the cost of the allocation can\<close>

text \<open>
  C5, as the claim states it, at an input that refutes it. Every course has one student,
  so the cost model samples nothing. The cost model gives the input allocation the cost
  \<open>18014398509481988\<close>. Local search draws \<open>C1\<close> and \<open>C2\<close>; the sum of the two costs
  after the exchange rounds down to \<open>18014398509481984\<close>, the delta comes out as \<open>-1\<close>
  and the exchange is applied. The tracked cost stays \<open>18014398509481988\<close>, and the cost
  model gives the returned allocation the cost \<open>18014398509481992\<close>. In exact arithmetic
  too the cost rises, from \<open>18014398509481989\<close> to \<open>18014398509481991\<close>.
\<close>

theorem local_search_cost_can_increase:
  "length (students cx_c0) = 1 \<and> length (students cx_c1) = 1 \<and> length (students cx_c2) = 1
   \<and> cost_of_alloc_fp [cx_c0, cx_c1, cx_c2] cx_rooms 0 cx_world
       = Inr (Fin 18014398509481988, cx_world)
   \<and> local_search_fp 0 [cx_c0, cx_c1, cx_c2] cx_rooms 1 cx_world = Inr (1, cx_swapped)
   \<and> ls_run_fp 0 [cx_c0, cx_c1, cx_c2] cx_rooms 1 cx_world
       = Inr ((1, Fin 18014398509481988, Fin 18014398509481988), cx_swapped)
   \<and> cost_of_alloc_fp [cx_c0, cx_c1, cx_c2] cx_rooms 1 cx_swapped
       = Inr (Fin 18014398509481992, cx_swapped)
   \<and> fless (Fin 18014398509481988) (Fin 18014398509481992)
   \<and> \<not> fle (Fin 18014398509481992) (Fin 18014398509481988)
   \<and> cost_of_alloc [cx_c0, cx_c1, cx_c2] cx_rooms 0 cx_world = Inr (18014398509481989, cx_world)
   \<and> cost_of_alloc [cx_c0, cx_c1, cx_c2] cx_rooms 1 cx_swapped
       = Inr (18014398509481991, cx_swapped)"
  using cx_cost_before cx_cost_after cx_ls_run
  by (simp add: local_search_fp_def bind_def fle_def cx_c0_def cx_c1_def cx_c2_def)

text \<open>
  C5, amended. In an iteration of local search an exchange is applied only when the delta
  that the iteration computes, \<^verbatim>\<open>t12 + t21 - t11 - t22\<close> with every sum rounded, is strictly
  below zero; the tracked cost then becomes the rounded sum of the tracked cost and that
  delta. When the delta is not below zero, zero included, the iteration changes neither the
  allocation nor the tracked cost. A tracked cost that is a finite double or minus infinity
  is followed by one that is such a value again and is not greater. So in a call whose
  initial cost is finite, the tracked cost at the end is at most the initial cost; and in
  every call that returns, the comparison \<^verbatim>\<open>initial_cost < current_cost\<close> is false at the
  end (an infinite initial cost can be followed by a tracked cost that is no number).
  Nothing is said of the cost that the cost model gives the returned allocation.
\<close>

theorem local_search_tracked_cost_nonincreasing:
  "(ls_step_fp courses rooms current cost s = Inr (cost', s') \<longrightarrow>
      (cost' = cost \<and> same_heap s s')
      \<or> (\<exists>c1 c2 k1 k2 r1 r2 t12 t21 t11 t22 w1 w2 w3 w4 w5.
            random_sample courses 2 s = Inr ([c1, c2], w1)
          \<and> dict_heap s current (course_id c1) = Some k1 \<and> rooms k1 = Some r1
          \<and> dict_heap s current (course_id c2) = Some k2 \<and> rooms k2 = Some r2
          \<and> room_travel_cost_fp c1 r2 w1 = Inr (t12, w2)
          \<and> room_travel_cost_fp c2 r1 w2 = Inr (t21, w3)
          \<and> room_travel_cost_fp c1 r1 w3 = Inr (t11, w4)
          \<and> room_travel_cost_fp c2 r2 w4 = Inr (t22, w5)
          \<and> fless (fsub (fsub (fadd t12 t21) t11) t22) (Fin 0)
          \<and> cost' = fadd cost (fsub (fsub (fadd t12 t21) t11) t22)
          \<and> dict_heap s' = (dict_heap s)(current :=
                swap_entries (dict_heap s current) c1 c2
                  (room_id (room_heap s r1)) (room_id (room_heap s r2)))))
   \<and> (random_sample courses 2 s = Inr ([da, db], sa) \<and> timeslot da = timeslot db
        \<and> dict_heap s current (course_id da) = Some ja \<and> rooms ja = Some qa
        \<and> dict_heap s current (course_id db) = Some jb \<and> rooms jb = Some qb
        \<and> course_size db \<le> capacity (room_heap s qa)
        \<and> course_size da \<le> capacity (room_heap s qb)
        \<and> room_travel_cost_fp da qb sa = Inr (tab, sb)
        \<and> room_travel_cost_fp db qa sb = Inr (tba, sc)
        \<and> room_travel_cost_fp da qa sc = Inr (taa, sd)
        \<and> room_travel_cost_fp db qb sd = Inr (tbb, se)
        \<and> \<not> fless (fsub (fsub (fadd tab tba) taa) tbb) (Fin 0)
      \<longrightarrow> ls_step_fp courses rooms current cost s = Inr (cost, se) \<and> same_heap s se)
   \<and> (ls_step_fp courses rooms current cost s = Inr (cost', s') \<and> tracked_ok cost
      \<longrightarrow> tracked_ok cost' \<and> fle cost' cost)
   \<and> (local_search_fp allocation courses rooms max_iter w = Inr (result, w')
      \<longrightarrow> (\<exists>initial_cost current_cost.
            ls_run_fp allocation courses rooms max_iter w
              = Inr ((result, initial_cost, current_cost), w')
            \<and> \<not> fless initial_cost current_cost
            \<and> ((\<exists>a. initial_cost = Fin a)
                \<longrightarrow> tracked_ok current_cost \<and> fle current_cost initial_cost)))"
proof (intro conjI impI)
  assume s: "ls_step_fp courses rooms current cost s = Inr (cost', s')"
  then show "(cost' = cost \<and> same_heap s s')
      \<or> (\<exists>c1 c2 k1 k2 r1 r2 t12 t21 t11 t22 w1 w2 w3 w4 w5.
            random_sample courses 2 s = Inr ([c1, c2], w1)
          \<and> dict_heap s current (course_id c1) = Some k1 \<and> rooms k1 = Some r1
          \<and> dict_heap s current (course_id c2) = Some k2 \<and> rooms k2 = Some r2
          \<and> room_travel_cost_fp c1 r2 w1 = Inr (t12, w2)
          \<and> room_travel_cost_fp c2 r1 w2 = Inr (t21, w3)
          \<and> room_travel_cost_fp c1 r1 w3 = Inr (t11, w4)
          \<and> room_travel_cost_fp c2 r2 w4 = Inr (t22, w5)
          \<and> fless (fsub (fsub (fadd t12 t21) t11) t22) (Fin 0)
          \<and> cost' = fadd cost (fsub (fsub (fadd t12 t21) t11) t22)
          \<and> dict_heap s' = (dict_heap s)(current :=
                swap_entries (dict_heap s current) c1 c2
                  (room_id (room_heap s r1)) (room_id (room_heap s r2))))"
  proof (cases rule: ls_step_fp_cases)
    case skip
    then show ?thesis by simp
  next
    case (swap c1 c2 k1 k2 r1 r2 t12 t21 t11 t22 w1 w2 w3 w4 w5)
    have "dict_heap s' = (dict_heap s)(current :=
                swap_entries (dict_heap s current) c1 c2
                  (room_id (room_heap s r1)) (room_id (room_heap s r2)))"
      using swap(15,16) by (simp add: same_heap_def)
    with swap(1,3-6,9-14) show ?thesis
      by blast
  qed
next
  assume a: "random_sample courses 2 s = Inr ([da, db], sa) \<and> timeslot da = timeslot db
        \<and> dict_heap s current (course_id da) = Some ja \<and> rooms ja = Some qa
        \<and> dict_heap s current (course_id db) = Some jb \<and> rooms jb = Some qb
        \<and> course_size db \<le> capacity (room_heap s qa)
        \<and> course_size da \<le> capacity (room_heap s qb)
        \<and> room_travel_cost_fp da qb sa = Inr (tab, sb)
        \<and> room_travel_cost_fp db qa sb = Inr (tba, sc)
        \<and> room_travel_cost_fp da qa sc = Inr (taa, sd)
        \<and> room_travel_cost_fp db qb sd = Inr (tbb, se)
        \<and> \<not> fless (fsub (fsub (fadd tab tba) taa) tbb) (Fin 0)"
  then show step: "ls_step_fp courses rooms current cost s = Inr (cost, se)"
    by (intro ls_step_fp_no_swap [of courses s da db sa current ja rooms qa jb qb tab sb tba sc taa sd tbb])
      simp_all
  have "same_heap s sa"
    using a heap_pure_random_sample by (auto dest: heap_pureD [rotated])
  moreover have "same_heap sa sb" "same_heap sb sc" "same_heap sc sd" "same_heap sd se"
    using a heap_pure_room_travel_cost_fp by (auto dest: heap_pureD [rotated])
  ultimately show "same_heap s se"
    by (blast intro: same_heap_trans)
next
  assume "ls_step_fp courses rooms current cost s = Inr (cost', s') \<and> tracked_ok cost"
  then show "tracked_ok cost'" and "fle cost' cost"
    using ls_step_fp_tracked by blast+
next
  assume "local_search_fp allocation courses rooms max_iter w = Inr (result, w')"
  then obtain c0 cN where
    run: "ls_run_fp allocation courses rooms max_iter w = Inr ((result, c0, cN), w')"
    by (auto simp: local_search_fp_Inr)
  have "(\<exists>a. c0 = Fin a) \<longrightarrow> tracked_ok cN \<and> fle cN c0"
    using ls_run_fp_tracked [OF run] by blast
  with run show "\<exists>initial_cost current_cost.
            ls_run_fp allocation courses rooms max_iter w
              = Inr ((result, initial_cost, current_cost), w')
            \<and> \<not> fless initial_cost current_cost
            \<and> ((\<exists>a. initial_cost = Fin a)
                \<longrightarrow> tracked_ok current_cost \<and> fle current_cost initial_cost)"
    using ls_run_fp_never_greater [OF run] by blast
qed

theorem local_search_tracked_cost_nonincreasing_witness:
  "ls_step_fp [ex_a, ex_b] ex_rooms_by_id 1 (Fin 4) ex_copied = Inr (Fin 0, ex_swapped)
   \<and> fsub (fsub (fadd (Fin 0) (Fin 0)) (Fin 2)) (Fin 2) = Fin (- 4)
   \<and> fadd (Fin 4) (Fin (- 4)) = Fin 0
   \<and> tracked_ok (Fin 4) \<and> tracked_ok (Fin 0) \<and> fle (Fin 0) (Fin 4)
   \<and> \<not> fless (Fin 4) (Fin 0)
   \<and> random_sample [ex_twin, ex_b] 2 ex_campus = Inr ([ex_twin, ex_b], ex_campus)
   \<and> fsub (fsub (fadd (Fin 2) (Fin 0)) (Fin 0)) (Fin 2) = Fin 0
   \<and> ls_step_fp [ex_twin, ex_b] ex_rooms_by_id 0 (Fin 2) ex_campus = Inr (Fin 2, ex_campus)
   \<and> local_search_fp 0 [ex_a, ex_b] ex_rooms_by_id 1 ex_campus = Inr (1, ex_swapped)
   \<and> ls_run_fp 0 [ex_a, ex_b] ex_rooms_by_id 1 ex_campus = Inr ((1, Fin 4, Fin 0), ex_swapped)"
  using local_search_tracked_cost_nonincreasing [where courses = "[ex_a, ex_b]"
      and rooms = ex_rooms_by_id and current = 1 and cost = "Fin 4" and s = ex_copied
      and cost' = "Fin 0" and s' = ex_swapped and allocation = 0 and max_iter = 1
      and w = ex_campus and result = 1 and w' = ex_swapped]
    local_search_tracked_cost_nonincreasing [where courses = "[ex_twin, ex_b]"
      and rooms = ex_rooms_by_id and current = 0 and cost = "Fin 2" and s = ex_campus
      and da = ex_twin and db = ex_b and sa = ex_campus and ja = "''R50''" and qa = 0
      and jb = "''R100''" and qb = 1 and tab = "Fin 2" and sb = ex_campus and tba = "Fin 0"
      and sc = ex_campus and taa = "Fin 0" and sd = ex_campus and tbb = "Fin 2"
      and se = ex_campus]
    ex_step_fp ex_ls_run_fp ex_twin_sample ex_twin_step_fp is_double_int [of 4]
  by (simp add: local_search_fp_def bind_def fsub_def rnd_small tracked_ok_def fle_def)

end
